theory Spec2Isabelle
  imports Complex_Main "HOL-Library.Product_Lexorder"
begin

section \<open>Texts and the string primitives of the source\<close>

text \<open>
  The diff engine of \<^verbatim>\<open>text_comparison.py\<close> works on Python strings. A text is modelled
  as a \<^typ>\<open>string\<close>, one \<^typ>\<open>char\<close> per code point (so the model ranges over the texts
  whose code points are below 256). The four string primitives the source calls are
  modelled as the interpreter computes them:
  \<^item> \<^verbatim>\<open>s.replace(c, r)\<close> for a one-character \<^verbatim>\<open>c\<close>;
  \<^item> \<^verbatim>\<open>s.split('\n\n')\<close>: cut at every occurrence of the separator, scanning from the
    left, occurrences not overlapping; the result is never empty;
  \<^item> \<^verbatim>\<open>re.split(r'(?<=[.!?])\s+', s)\<close>: cut at every maximal run of whitespace that
    follows one of \<^verbatim>\<open>. ! ?\<close>; the run is dropped, the result is never empty;
  \<^item> \<^verbatim>\<open>s.split()\<close>: the maximal runs of non-whitespace characters.
\<close>

definition NL :: char where
  "NL = CHR 0x0A"

text \<open>The code points below 256 for which \<^verbatim>\<open>str.isspace\<close> holds and that \<^verbatim>\<open>\s\<close> matches.\<close>

definition whitespace_chars :: "char list" where
  "whitespace_chars =
     [CHR 0x09, CHR 0x0A, CHR 0x0B, CHR 0x0C, CHR 0x0D,
      CHR 0x1C, CHR 0x1D, CHR 0x1E, CHR 0x1F, CHR 0x20, CHR 0x85, CHR 0xA0]"

definition is_space :: "char \<Rightarrow> bool" where
  "is_space c = (c \<in> set whitespace_chars)"

definition is_sentence_end :: "char \<Rightarrow> bool" where
  "is_sentence_end c = (c = CHR ''.'' \<or> c = CHR ''!'' \<or> c = CHR ''?'')"

definition str_replace :: "char \<Rightarrow> string \<Rightarrow> string \<Rightarrow> string" where
  "str_replace c r s = concat (map (\<lambda>x. if x = c then r else [x]) s)"

text \<open>\<^verbatim>\<open>sep.join(xs)\<close>\<close>

fun join :: "string \<Rightarrow> string list \<Rightarrow> string" where
  "join sep [] = []"
| "join sep [x] = x"
| "join sep (x # y # ys) = x @ sep @ join sep (y # ys)"

text \<open>Puts a character in front of the first piece of a split that is under way.\<close>

fun push_char :: "char \<Rightarrow> string list \<Rightarrow> string list" where
  "push_char c [] = [[c]]"
| "push_char c (p # ps) = (c # p) # ps"

fun split_paragraphs :: "string \<Rightarrow> string list" where
  "split_paragraphs [] = [[]]"
| "split_paragraphs [c] = [[c]]"
| "split_paragraphs (c # d # cs) =
     (if c = NL \<and> d = NL then [] # split_paragraphs cs
      else push_char c (split_paragraphs (d # cs)))"

function split_sentences :: "string \<Rightarrow> string list" where
  "split_sentences [] = [[]]"
| "split_sentences [c] = [[c]]"
| "split_sentences (c # d # cs) =
     (if is_sentence_end c \<and> is_space d
      then [c] # split_sentences (dropWhile is_space cs)
      else push_char c (split_sentences (d # cs)))"
  by pat_completeness auto
termination
  by (relation "measure length") (auto simp: less_Suc_eq_le intro: le_trans [OF length_dropWhile_le])

text \<open>\<^verbatim>\<open>s.split()\<close>; the first argument is the word being read, reversed.\<close>

fun split_ws_from :: "string \<Rightarrow> string \<Rightarrow> string list" where
  "split_ws_from cur [] = (if cur = [] then [] else [rev cur])"
| "split_ws_from cur (c # cs) =
     (if is_space c
      then (if cur = [] then split_ws_from [] cs else rev cur # split_ws_from [] cs)
      else split_ws_from (c # cur) cs)"

definition split_ws :: "string \<Rightarrow> string list" where
  "split_ws s = split_ws_from [] s"

text \<open>The slice \<^verbatim>\<open>xs[i:j]\<close> for \<^verbatim>\<open>0 <= i\<close>, which never raises.\<close>

definition slice :: "'a list \<Rightarrow> nat \<Rightarrow> nat \<Rightarrow> 'a list" where
  "slice xs i j = take (j - i) (drop i xs)"

section \<open>Difference records and the summary\<close>

text \<open>
  A difference is the dictionary \<^verbatim>\<open>{'type': .., 'old_content': .., 'new_content': ..}\<close>;
  its type is a Python string, and \<^verbatim>\<open>generate_summary\<close> accepts any.
\<close>

record diff =
  dtype :: string
  old_content :: string
  new_content :: string

definition mk_diff :: "string \<Rightarrow> string \<Rightarrow> string \<Rightarrow> diff" where
  "mk_diff t old new = \<lparr>dtype = t, old_content = old, new_content = new\<rparr>"

text \<open>
  The percentages of the summary are Python numbers: the \<^verbatim>\<open>int\<close> 0, or a \<^verbatim>\<open>float\<close>, which is
  an IEEE 754 binary64 number. Only doubles that are not negative arise from the counts:
  \<^verbatim>\<open>Finite m e\<close> is the double \<^verbatim>\<open>m * 2 ** e\<close>.
\<close>

datatype double = Finite nat int | Infinity | NaN

datatype number = PyInt int | PyFloat double

record summary =
  total_elements :: nat
  additions_count :: nat
  additions_percentage :: number
  additions_words :: nat
  deletions_count :: nat
  deletions_percentage :: number
  deletions_words :: nat
  modifications_count :: nat
  modifications_percentage :: number
  modifications_words_old :: nat
  modifications_words_new :: nat
  unchanged_count :: nat
  unchanged_percentage :: number

text \<open>
  The counters of the loop of \<^verbatim>\<open>generate_summary\<close>: \<^verbatim>\<open>added\<close>, \<^verbatim>\<open>deleted\<close>,
  \<^verbatim>\<open>modified\<close>, \<^verbatim>\<open>unchanged\<close> and the three content lists.
\<close>

record counters =
  added :: nat
  deleted :: nat
  modified :: nat
  unchanged :: nat
  added_content :: "string list"
  deleted_content :: "string list"
  modified_content :: "(string \<times> string) list"

definition counters0 :: counters where
  "counters0 = \<lparr>added = 0, deleted = 0, modified = 0, unchanged = 0,
     added_content = [], deleted_content = [], modified_content = []\<rparr>"

definition count_diff :: "diff \<Rightarrow> counters \<Rightarrow> counters" where
  "count_diff d c =
     (if dtype d = ''added''
        then c\<lparr>added := added c + 1, added_content := added_content c @ [new_content d]\<rparr>
      else if dtype d = ''deleted''
        then c\<lparr>deleted := deleted c + 1, deleted_content := deleted_content c @ [old_content d]\<rparr>
      else if dtype d = ''modified''
        then c\<lparr>modified := modified c + 1,
               modified_content := modified_content c @ [(old_content d, new_content d)]\<rparr>
      else if dtype d = ''equal''
        then c\<lparr>unchanged := unchanged c + 1\<rparr>
      else c)"

text \<open>
  The arithmetic of the percentages is floating-point. \<^verbatim>\<open>x / y\<close> on two \<^verbatim>\<open>int\<close>s raises
  ZeroDivisionError for \<^verbatim>\<open>y == 0\<close>, and otherwise returns the double nearest to the exact
  quotient, ties going to the even significand (CPython's \<^verbatim>\<open>long_true_divide\<close> rounds
  correctly, subnormal results included), or raises OverflowError when that double would
  be \<^verbatim>\<open>2 ** 1024\<close> or more. A double has 53 significant bits and its exponent is at least
  \<^verbatim>\<open>-1022\<close>, so the unit in the last place of a number in \<^verbatim>\<open>[2 ** e, 2 ** (e + 1))\<close> is
  \<^verbatim>\<open>2 ** (max e (-1022) - 52)\<close>. All of it is computed on natural numbers.
\<close>

text \<open>\<^verbatim>\<open>n.bit_length()\<close>\<close>

fun bit_length :: "nat \<Rightarrow> nat" where
  "bit_length n = (if n = 0 then 0 else Suc (bit_length (n div 2)))"

declare bit_length.simps [simp del]

text \<open>The exponent \<^verbatim>\<open>e\<close> with \<^verbatim>\<open>2 ** e <= p / q < 2 ** (e + 1)\<close>, for positive \<^verbatim>\<open>p\<close> and \<^verbatim>\<open>q\<close>.\<close>

definition floor_log2 :: "nat \<Rightarrow> nat \<Rightarrow> int" where
  "floor_log2 p q =
     (let e = int (bit_length p) - int (bit_length q)
      in if q * 2 ^ nat e \<le> p * 2 ^ nat (- e) then e else e - 1)"

text \<open>The integer nearest to \<^verbatim>\<open>n / d\<close>, the even one of the two when \<^verbatim>\<open>n / d\<close> is half-way.\<close>

definition round_half_even :: "nat \<Rightarrow> nat \<Rightarrow> nat" where
  "round_half_even n d =
     (let f = n div d; r = n mod d
      in if 2 * r < d then f else if 2 * r > d then f + 1
         else if even f then f else f + 1)"

text \<open>
  The double nearest to \<^verbatim>\<open>p / q\<close> (for \<^verbatim>\<open>q > 0\<close>), as its significand and exponent; the
  exponent is not bounded above here, the callers test for overflow.
\<close>

definition nearest_double :: "nat \<Rightarrow> nat \<Rightarrow> nat \<times> int" where
  "nearest_double p q =
     (if p = 0 then (0, 0)
      else (let s = max (floor_log2 p q) (- 1022) - 52
            in (round_half_even (p * 2 ^ nat (- s)) (q * 2 ^ nat s), s)))"

text \<open>\<^verbatim>\<open>m * 2 ** s < 2 ** 1024\<close>\<close>

definition is_finite :: "nat \<times> int \<Rightarrow> bool" where
  "is_finite d = (case d of (m, s) \<Rightarrow> m * 2 ^ nat s < 2 ^ 1024 * 2 ^ nat (- s))"

text \<open>\<^verbatim>\<open>x / y\<close> on \<^verbatim>\<open>int\<close>s that are not negative; \<open>None\<close> is the exception raised.\<close>

definition truediv :: "nat \<Rightarrow> nat \<Rightarrow> double option" where
  "truediv x y =
     (if y = 0 then None
      else (case nearest_double x y of (m, s) \<Rightarrow>
              if is_finite (m, s) then Some (Finite m s) else None))"

text \<open>
  \<^verbatim>\<open>x * y\<close> on doubles that are not negative: the exact product rounded to the nearest
  double, \<^verbatim>\<open>inf\<close> on overflow; it raises nothing.
\<close>

fun float_mul :: "double \<Rightarrow> double \<Rightarrow> double" where
  "float_mul (Finite m1 e1) (Finite m2 e2) =
     (case nearest_double (m1 * m2 * 2 ^ nat (e1 + e2)) (2 ^ nat (- (e1 + e2))) of
        (m, s) \<Rightarrow> if is_finite (m, s) then Finite m s else Infinity)"
| "float_mul (Finite m e) Infinity = (if m = 0 then NaN else Infinity)"
| "float_mul Infinity (Finite m e) = (if m = 0 then NaN else Infinity)"
| "float_mul Infinity Infinity = Infinity"
| "float_mul NaN y = NaN"
| "float_mul x NaN = NaN"

text \<open>
  \<^verbatim>\<open>(count / total_elements * 100) if total_elements > 0 else 0\<close>: the \<^verbatim>\<open>int\<close> 100 is
  converted to the double 100.0 for the product, and the other branch is the \<^verbatim>\<open>int\<close> 0.
\<close>

definition percentage :: "nat \<Rightarrow> nat \<Rightarrow> number option" where
  "percentage cnt total_elems =
     (if total_elems > 0
      then map_option (\<lambda>q. PyFloat (float_mul q (Finite 100 0))) (truediv cnt total_elems)
      else Some (PyInt 0))"

definition count_words :: "string list \<Rightarrow> nat" where
  "count_words contents = sum_list (map (\<lambda>content. length (split_ws content)) contents)"

definition generate_summary :: "diff list \<Rightarrow> summary option" where
  "generate_summary ds =
     (let c = fold count_diff ds counters0;
          total_elems = added c + deleted c + modified c + unchanged c;
          added_words = count_words (added_content c);
          deleted_words = count_words (deleted_content c);
          modified_words_old = count_words (map fst (modified_content c));
          modified_words_new = count_words (map snd (modified_content c))
      in Option.bind (percentage (added c) total_elems) (\<lambda>pa.
         Option.bind (percentage (deleted c) total_elems) (\<lambda>pd.
         Option.bind (percentage (modified c) total_elems) (\<lambda>pm.
         Option.bind (percentage (unchanged c) total_elems) (\<lambda>pu.
           Some \<lparr>total_elements = total_elems,
             additions_count = added c, additions_percentage = pa, additions_words = added_words,
             deletions_count = deleted c, deletions_percentage = pd, deletions_words = deleted_words,
             modifications_count = modified c, modifications_percentage = pm,
             modifications_words_old = modified_words_old,
             modifications_words_new = modified_words_new,
             unchanged_count = unchanged c, unchanged_percentage = pu\<rparr>)))))"

section \<open>The sequence matcher\<close>

text \<open>
  \<^verbatim>\<open>compare_texts\<close> aligns with \<^verbatim>\<open>difflib.SequenceMatcher(None, a, b).get_opcodes()\<close>
  of the Python standard library, modelled here method by method. The matcher is built
  with \<^verbatim>\<open>isjunk = None\<close> and \<^verbatim>\<open>autojunk = True\<close>: no element is junk (so the two loops of
  \<^verbatim>\<open>find_longest_match\<close> that extend a match over junk never run and are left out), and
  in a second sequence of 200 elements or more the elements that occur more than
  \<^verbatim>\<open>len(b) // 100 + 1\<close> times are dropped from the index \<^verbatim>\<open>b2j\<close>.
  A dictionary is a map; indices are natural numbers, and each subtraction of the
  source is shown below not to go under zero.
\<close>

definition setdefault_append :: "nat \<times> 'a \<Rightarrow> ('a \<rightharpoonup> nat list) \<Rightarrow> ('a \<rightharpoonup> nat list)" where
  "setdefault_append p b2j =
     (case p of (i, elt) \<Rightarrow>
        b2j(elt \<mapsto> (case b2j elt of None \<Rightarrow> [] | Some indices \<Rightarrow> indices) @ [i]))"

definition chain_b :: "'a list \<Rightarrow> ('a \<rightharpoonup> nat list)" where
  "chain_b b =
     (let b2j = fold setdefault_append (enumerate 0 b) Map.empty;
          n = length b
      in if n \<ge> 200
         then (let ntest = n div 100 + 1
               in (\<lambda>elt. case b2j elt of None \<Rightarrow> None
                      | Some idxs \<Rightarrow> if length idxs > ntest then None else Some idxs))
         else b2j)"

text \<open>
  The inner loop of \<^verbatim>\<open>find_longest_match\<close> over the indices \<^verbatim>\<open>j\<close> of \<^verbatim>\<open>b2j[a[i]]\<close>, with its
  \<^verbatim>\<open>continue\<close> and \<^verbatim>\<open>break\<close>. The state is \<^verbatim>\<open>newj2len\<close> and the best match so far.
  \<^verbatim>\<open>j2len.get(j-1, 0)\<close> at \<^verbatim>\<open>j = 0\<close> asks for the key \<^verbatim>\<open>-1\<close>, which is never there.
\<close>

fun scan_row ::
  "nat \<Rightarrow> nat \<Rightarrow> nat \<Rightarrow> (nat \<rightharpoonup> nat) \<Rightarrow> nat list \<Rightarrow>
   (nat \<rightharpoonup> nat) \<times> nat \<times> nat \<times> nat \<Rightarrow> (nat \<rightharpoonup> nat) \<times> nat \<times> nat \<times> nat" where
  "scan_row i blo bhi j2len [] st = st"
| "scan_row i blo bhi j2len (j # js) (newj2len, besti, bestj, bestsize) =
     (if j < blo then scan_row i blo bhi j2len js (newj2len, besti, bestj, bestsize)
      else if j \<ge> bhi then (newj2len, besti, bestj, bestsize)
      else (let k = (if j = 0 then 0 else case j2len (j - 1) of None \<Rightarrow> 0 | Some v \<Rightarrow> v) + 1
            in if k > bestsize
               then scan_row i blo bhi j2len js (newj2len(j \<mapsto> k), i + 1 - k, j + 1 - k, k)
               else scan_row i blo bhi j2len js (newj2len(j \<mapsto> k), besti, bestj, bestsize)))"

definition scan_step ::
  "'a list \<Rightarrow> ('a \<rightharpoonup> nat list) \<Rightarrow> nat \<Rightarrow> nat \<Rightarrow> nat \<Rightarrow>
   (nat \<rightharpoonup> nat) \<times> nat \<times> nat \<times> nat \<Rightarrow> (nat \<rightharpoonup> nat) \<times> nat \<times> nat \<times> nat" where
  "scan_step a b2j blo bhi i st =
     (case st of (j2len, best) \<Rightarrow>
        scan_row i blo bhi j2len (case b2j (a ! i) of None \<Rightarrow> [] | Some js \<Rightarrow> js)
          (Map.empty, best))"

definition longest_junk_free ::
  "'a list \<Rightarrow> ('a \<rightharpoonup> nat list) \<Rightarrow> nat \<Rightarrow> nat \<Rightarrow> nat \<Rightarrow> nat \<Rightarrow> nat \<times> nat \<times> nat" where
  "longest_junk_free a b2j alo ahi blo bhi =
     snd (fold (scan_step a b2j blo bhi) [alo..<ahi] (Map.empty, (alo, blo, 0)))"

function extend_left ::
  "'a list \<Rightarrow> 'a list \<Rightarrow> nat \<Rightarrow> nat \<Rightarrow> nat \<times> nat \<times> nat \<Rightarrow> nat \<times> nat \<times> nat" where
  "extend_left a b alo blo (besti, bestj, bestsize) =
     (if besti > alo \<and> bestj > blo \<and> a ! (besti - 1) = b ! (bestj - 1)
      then extend_left a b alo blo (besti - 1, bestj - 1, bestsize + 1)
      else (besti, bestj, bestsize))"
  by pat_completeness auto
termination
  by (relation "measure (\<lambda>(a, b, alo, blo, besti, bestj, bestsize). besti)") auto

function extend_right ::
  "'a list \<Rightarrow> 'a list \<Rightarrow> nat \<Rightarrow> nat \<Rightarrow> nat \<times> nat \<times> nat \<Rightarrow> nat \<times> nat \<times> nat" where
  "extend_right a b ahi bhi (besti, bestj, bestsize) =
     (if besti + bestsize < ahi \<and> bestj + bestsize < bhi \<and>
         a ! (besti + bestsize) = b ! (bestj + bestsize)
      then extend_right a b ahi bhi (besti, bestj, bestsize + 1)
      else (besti, bestj, bestsize))"
  by pat_completeness auto
termination
  by (relation "measure (\<lambda>(a, b, ahi, bhi, besti, bestj, bestsize). ahi - (besti + bestsize))")
    auto

definition find_longest_match ::
  "'a list \<Rightarrow> 'a list \<Rightarrow> ('a \<rightharpoonup> nat list) \<Rightarrow> nat \<Rightarrow> nat \<Rightarrow> nat \<Rightarrow> nat \<Rightarrow> nat \<times> nat \<times> nat" where
  "find_longest_match a b b2j alo ahi blo bhi =
     extend_right a b ahi bhi (extend_left a b alo blo (longest_junk_free a b2j alo ahi blo bhi))"

text \<open>
  The match that \<^verbatim>\<open>find_longest_match\<close> returns lies in the window it is asked about (or
  is the empty match \<^verbatim>\<open>(alo, blo, 0)\<close>): this bounds every index computed above, and is
  what makes the loop of \<^verbatim>\<open>get_matching_blocks\<close> terminate.
\<close>

definition in_window :: "nat \<Rightarrow> nat \<Rightarrow> nat \<Rightarrow> nat \<Rightarrow> nat \<times> nat \<times> nat \<Rightarrow> bool" where
  "in_window alo ahi blo bhi m =
     (case m of (i, j, k) \<Rightarrow>
        alo \<le> i \<and> blo \<le> j \<and> ((i = alo \<and> j = blo \<and> k = 0) \<or> (i + k \<le> ahi \<and> j + k \<le> bhi)))"

definition row_bounded :: "nat \<Rightarrow> nat \<Rightarrow> nat \<Rightarrow> (nat \<rightharpoonup> nat) \<Rightarrow> bool" where
  "row_bounded alo blo n j2len = (\<forall>j v. j2len j = Some v \<longrightarrow> v \<le> n - alo \<and> v \<le> j + 1 - blo)"

lemma scan_row_bounds:
  assumes "alo \<le> i" "i < ahi" "row_bounded alo blo i j2len"
    and "row_bounded alo blo (i + 1) newj2len" "in_window alo ahi blo bhi best"
  shows "row_bounded alo blo (i + 1) (fst (scan_row i blo bhi j2len js (newj2len, best))) \<and>
         in_window alo ahi blo bhi (snd (scan_row i blo bhi j2len js (newj2len, best)))"
  using assms(4,5)
proof (induction js arbitrary: newj2len best)
  case Nil
  then show ?case by simp
next
  case (Cons j js)
  obtain bi bj bs where best: "best = (bi, bj, bs)" by (cases best)
  define k where "k = (if j = 0 then 0 else case j2len (j - 1) of None \<Rightarrow> 0 | Some v \<Rightarrow> v) + 1"
  show ?case
  proof (cases "blo \<le> j \<and> j < bhi")
    case False
    with Cons best show ?thesis by auto
  next
    case True
    have prev: "\<And>v. j2len (j - 1) = Some v \<Longrightarrow> v \<le> i - alo \<and> v \<le> (j - 1) + 1 - blo"
      using assms(3) unfolding row_bounded_def by blast
    have k1: "k \<le> i + 1 - alo" and k2: "k \<le> j + 1 - blo" and k0: "1 \<le> k"
      using assms(1) True prev unfolding k_def by (auto split: option.splits)
    have rb: "row_bounded alo blo (i + 1) (newj2len(j \<mapsto> k))"
      using Cons.prems(1) k1 k2 unfolding row_bounded_def by auto
    have w: "in_window alo ahi blo bhi (i + 1 - k, j + 1 - k, k)"
      using k1 k2 k0 assms(1,2) True unfolding in_window_def by auto
    show ?thesis
    proof (cases "k > bs")
      case True
      have "scan_row i blo bhi j2len (j # js) (newj2len, best) =
            scan_row i blo bhi j2len js (newj2len(j \<mapsto> k), (i + 1 - k, j + 1 - k, k))"
        using \<open>blo \<le> j \<and> j < bhi\<close> True best by (simp add: k_def Let_def)
      then show ?thesis by (simp only: Cons.IH [OF rb w])
    next
      case False
      have "scan_row i blo bhi j2len (j # js) (newj2len, best) =
            scan_row i blo bhi j2len js (newj2len(j \<mapsto> k), best)"
        using \<open>blo \<le> j \<and> j < bhi\<close> False best by (simp add: k_def Let_def)
      then show ?thesis by (simp only: Cons.IH [OF rb Cons.prems(2)])
    qed
  qed
qed

lemma scan_fold_bounds:
  assumes "alo \<le> n" "n \<le> ahi"
  shows "row_bounded alo blo n (fst (fold (scan_step a b2j blo bhi) [alo..<n] (Map.empty, (alo, blo, 0)))) \<and>
         in_window alo ahi blo bhi (snd (fold (scan_step a b2j blo bhi) [alo..<n] (Map.empty, (alo, blo, 0))))"
  using assms
proof (induction n)
  case 0
  then show ?case by (simp add: row_bounded_def in_window_def)
next
  case (Suc n)
  show ?case
  proof (cases "alo = Suc n")
    case True
    then show ?thesis by (simp add: row_bounded_def in_window_def)
  next
    case False
    with Suc.prems have le: "alo \<le> n" "n \<le> ahi" "n < ahi" by auto
    obtain m best where st: "fold (scan_step a b2j blo bhi) [alo..<n] (Map.empty, (alo, blo, 0)) = (m, best)"
      by (cases "fold (scan_step a b2j blo bhi) [alo..<n] (Map.empty, (alo, blo, 0))")
    from Suc.IH [OF le(1,2)] st have ih: "row_bounded alo blo n m" "in_window alo ahi blo bhi best"
      by simp_all
    have e: "row_bounded alo blo (n + 1) Map.empty" by (simp add: row_bounded_def)
    have "fold (scan_step a b2j blo bhi) [alo..<Suc n] (Map.empty, (alo, blo, 0)) =
          scan_row n blo bhi m (case b2j (a ! n) of None \<Rightarrow> [] | Some js \<Rightarrow> js) (Map.empty, best)"
      using le(1) st by (simp add: scan_step_def)
    with scan_row_bounds [OF le(1) le(3) ih(1) e ih(2)]
    show ?thesis by simp
  qed
qed

lemma longest_junk_free_window:
  "in_window alo ahi blo bhi (longest_junk_free a b2j alo ahi blo bhi)"
proof (cases "alo \<le> ahi")
  case True
  then show ?thesis
    using scan_fold_bounds [of alo ahi ahi blo a b2j bhi] by (simp add: longest_junk_free_def)
next
  case False
  then show ?thesis by (simp add: longest_junk_free_def in_window_def)
qed

declare extend_left.simps [simp del] extend_right.simps [simp del]

lemma extend_left_window:
  "in_window alo ahi blo bhi m \<Longrightarrow> in_window alo ahi blo bhi (extend_left a b alo blo m)"
proof (induction a b alo blo m rule: extend_left.induct)
  case (1 a b alo blo besti bestj bestsize)
  show ?case
  proof (cases "besti > alo \<and> bestj > blo \<and> a ! (besti - 1) = b ! (bestj - 1)")
    case True
    have w: "in_window alo ahi blo bhi (besti - 1, bestj - 1, bestsize + 1)"
      using "1.prems" True unfolding in_window_def by auto
    have "extend_left a b alo blo (besti, bestj, bestsize) =
          extend_left a b alo blo (besti - 1, bestj - 1, bestsize + 1)"
      by (subst extend_left.simps, subst if_P [OF True], rule refl)
    with "1.IH" [OF True w] show ?thesis by simp
  next
    case False
    have "extend_left a b alo blo (besti, bestj, bestsize) = (besti, bestj, bestsize)"
      by (subst extend_left.simps, subst if_not_P [OF False], rule refl)
    with "1.prems" show ?thesis by simp
  qed
qed

lemma extend_right_window:
  "in_window alo ahi blo bhi m \<Longrightarrow> in_window alo ahi blo bhi (extend_right a b ahi bhi m)"
proof (induction a b ahi bhi m rule: extend_right.induct)
  case (1 a b ahi bhi besti bestj bestsize)
  show ?case
  proof (cases "besti + bestsize < ahi \<and> bestj + bestsize < bhi \<and>
         a ! (besti + bestsize) = b ! (bestj + bestsize)")
    case True
    have w: "in_window alo ahi blo bhi (besti, bestj, bestsize + 1)"
      using "1.prems" True unfolding in_window_def by auto
    have "extend_right a b ahi bhi (besti, bestj, bestsize) =
          extend_right a b ahi bhi (besti, bestj, bestsize + 1)"
      by (subst extend_right.simps, subst if_P [OF True], rule refl)
    with "1.IH" [OF True w] show ?thesis by simp
  next
    case False
    have "extend_right a b ahi bhi (besti, bestj, bestsize) = (besti, bestj, bestsize)"
      by (subst extend_right.simps, subst if_not_P [OF False], rule refl)
    with "1.prems" show ?thesis by simp
  qed
qed

lemma find_longest_match_window:
  "in_window alo ahi blo bhi (find_longest_match a b b2j alo ahi blo bhi)"
  unfolding find_longest_match_def
  by (intro extend_right_window extend_left_window longest_junk_free_window)

lemma find_longest_match_inside:
  assumes "find_longest_match a b b2j alo ahi blo bhi = (i, j, k)" and "k \<noteq> 0"
  shows "alo \<le> i \<and> i + k \<le> ahi \<and> blo \<le> j \<and> j + k \<le> bhi"
proof -
  have "in_window alo ahi blo bhi (i, j, k)"
    using find_longest_match_window [of alo ahi blo bhi a b b2j] assms(1) by simp
  then show ?thesis
    using assms(2) by (simp add: in_window_def)
qed

text \<open>
  The loop of \<^verbatim>\<open>get_matching_blocks\<close>. The queue is a stack: \<^verbatim>\<open>queue.pop()\<close> takes the
  element appended last, which is the head of the list here.
\<close>

definition queue_weight :: "(nat \<times> nat \<times> nat \<times> nat) list \<Rightarrow> nat" where
  "queue_weight queue = sum_list (map (\<lambda>(alo, ahi, blo, bhi). 2 * (ahi - alo) + 1) queue)"

function match_loop ::
  "'a list \<Rightarrow> 'a list \<Rightarrow> ('a \<rightharpoonup> nat list) \<Rightarrow> (nat \<times> nat \<times> nat \<times> nat) list \<Rightarrow>
   (nat \<times> nat \<times> nat) list \<Rightarrow> (nat \<times> nat \<times> nat) list" where
  "match_loop a b b2j [] matching_blocks = matching_blocks"
| "match_loop a b b2j ((alo, ahi, blo, bhi) # queue) matching_blocks =
     (case find_longest_match a b b2j alo ahi blo bhi of (i, j, k) \<Rightarrow>
        if k \<noteq> 0
        then match_loop a b b2j
               ((if i + k < ahi \<and> j + k < bhi then [(i + k, ahi, j + k, bhi)] else []) @
                (if alo < i \<and> blo < j then [(alo, i, blo, j)] else []) @ queue)
               (matching_blocks @ [(i, j, k)])
        else match_loop a b b2j queue matching_blocks)"
  by pat_completeness auto
termination
  by (relation "measure (\<lambda>(a, b, b2j, queue, mbs). queue_weight queue)")
    (auto simp: queue_weight_def dest!: find_longest_match_inside [OF sym])

declare match_loop.simps [simp del]

text \<open>The loop of \<^verbatim>\<open>get_matching_blocks\<close> that merges adjacent blocks.\<close>

definition collapse_step ::
  "nat \<times> nat \<times> nat \<Rightarrow> (nat \<times> nat \<times> nat) \<times> (nat \<times> nat \<times> nat) list \<Rightarrow>
   (nat \<times> nat \<times> nat) \<times> (nat \<times> nat \<times> nat) list" where
  "collapse_step m st =
     (case (m, st) of ((i2, j2, k2), ((i1, j1, k1), non_adjacent)) \<Rightarrow>
        if i1 + k1 = i2 \<and> j1 + k1 = j2 then ((i1, j1, k1 + k2), non_adjacent)
        else ((i2, j2, k2), if k1 \<noteq> 0 then non_adjacent @ [(i1, j1, k1)] else non_adjacent))"

definition get_matching_blocks :: "'a list \<Rightarrow> 'a list \<Rightarrow> (nat \<times> nat \<times> nat) list" where
  "get_matching_blocks a b =
     (let la = length a; lb = length b;
          matching_blocks = sort (match_loop a b (chain_b b) [(0, la, 0, lb)] [])
      in case fold collapse_step matching_blocks ((0, 0, 0), []) of
           ((i1, j1, k1), non_adjacent) \<Rightarrow>
             (if k1 \<noteq> 0 then non_adjacent @ [(i1, j1, k1)] else non_adjacent) @ [(la, lb, 0)])"

datatype tag = Replace | Delete | Insert | Equal

type_synonym opcode = "tag \<times> nat \<times> nat \<times> nat \<times> nat"

definition opcode_step ::
  "nat \<times> nat \<times> nat \<Rightarrow> nat \<times> nat \<times> opcode list \<Rightarrow> nat \<times> nat \<times> opcode list" where
  "opcode_step m st =
     (case (m, st) of ((ai, bj, sz), (i, j, answer)) \<Rightarrow>
        (let answer1 =
               (if i < ai \<and> j < bj then answer @ [(Replace, i, ai, j, bj)]
                else if i < ai then answer @ [(Delete, i, ai, j, bj)]
                else if j < bj then answer @ [(Insert, i, ai, j, bj)]
                else answer)
         in (ai + sz, bj + sz,
             if sz \<noteq> 0 then answer1 @ [(Equal, ai, ai + sz, bj, bj + sz)] else answer1)))"

definition get_opcodes :: "'a list \<Rightarrow> 'a list \<Rightarrow> opcode list" where
  "get_opcodes a b = snd (snd (fold opcode_step (get_matching_blocks a b) (0, 0, [])))"

section \<open>The comparison of two texts\<close>

definition sanitize_for_display :: "string \<Rightarrow> string" where
  "sanitize_for_display text =
     str_replace CHR ''}'' ''&#125;''
       (str_replace CHR ''{'' ''&#123;''
         (str_replace CHR ''>'' ''&gt;'' (str_replace CHR ''<'' ''&lt;'' text)))"

text \<open>
  The records appended for one opcode of the sentence matcher. The two reads
  \<^verbatim>\<open>old_sentences[s_i]\<close> are in range for every opcode the matcher returns (shown
  below), so that no IndexError is possible.
\<close>

definition sentence_records :: "string list \<Rightarrow> string list \<Rightarrow> opcode \<Rightarrow> diff list" where
  "sentence_records old_sentences new_sentences opc =
     (case opc of (s_tag, s_i1, s_i2, s_j1, s_j2) \<Rightarrow>
        (case s_tag of
           Equal \<Rightarrow>
             map (\<lambda>s_i. mk_diff ''equal'' (old_sentences ! s_i) (old_sentences ! s_i))
               [s_i1..<s_i2]
         | Replace \<Rightarrow>
             [mk_diff ''modified'' (join '' '' (slice old_sentences s_i1 s_i2))
                (join '' '' (slice new_sentences s_j1 s_j2))]
         | Delete \<Rightarrow> [mk_diff ''deleted'' (join '' '' (slice old_sentences s_i1 s_i2)) []]
         | Insert \<Rightarrow> [mk_diff ''added'' [] (join '' '' (slice new_sentences s_j1 s_j2))]))"

definition refine_replace :: "string list \<Rightarrow> string list \<Rightarrow> nat \<Rightarrow> nat \<Rightarrow> nat \<Rightarrow> nat \<Rightarrow> diff list" where
  "refine_replace paragraphs1 paragraphs2 i1 i2 j1 j2 =
     (let old_content = join [NL, NL] (slice paragraphs1 i1 i2);
          new_content = join [NL, NL] (slice paragraphs2 j1 j2);
          old_sentences = split_sentences old_content;
          new_sentences = split_sentences new_content;
          sentence_opcodes = get_opcodes old_sentences new_sentences
      in concat (map (sentence_records old_sentences new_sentences) sentence_opcodes))"

definition paragraph_records :: "string list \<Rightarrow> string list \<Rightarrow> opcode \<Rightarrow> diff list" where
  "paragraph_records paragraphs1 paragraphs2 opc =
     (case opc of (tg, i1, i2, j1, j2) \<Rightarrow>
        (case tg of
           Equal \<Rightarrow>
             map (\<lambda>i. mk_diff ''equal'' (paragraphs1 ! i) (paragraphs1 ! i)) [i1..<i2]
         | Replace \<Rightarrow> refine_replace paragraphs1 paragraphs2 i1 i2 j1 j2
         | Delete \<Rightarrow> map (\<lambda>i. mk_diff ''deleted'' (paragraphs1 ! i) []) [i1..<i2]
         | Insert \<Rightarrow> map (\<lambda>j. mk_diff ''added'' [] (paragraphs2 ! j)) [j1..<j2]))"

definition compare_texts :: "string \<Rightarrow> string \<Rightarrow> diff list" where
  "compare_texts text1 text2 =
     (let text1 = sanitize_for_display text1;
          text2 = sanitize_for_display text2;
          paragraphs1 = split_paragraphs text1;
          paragraphs2 = split_paragraphs text2;
          opcodes = get_opcodes paragraphs1 paragraphs2
      in concat (map (paragraph_records paragraphs1 paragraphs2) opcodes))"

section \<open>Properties of the summary\<close>

text \<open>The types that \<^verbatim>\<open>generate_summary\<close> tests for.\<close>

definition recognized :: "diff \<Rightarrow> bool" where
  "recognized d = (dtype d = ''added'' \<or> dtype d = ''deleted'' \<or> dtype d = ''modified'' \<or> dtype d = ''equal'')"

definition has_type :: "string \<Rightarrow> diff \<Rightarrow> bool" where
  "has_type t d = (dtype d = t)"

lemma fold_count_diff_added:
  "added (fold count_diff ds c) = added c + length (filter (has_type ''added'') ds)"
  by (induction ds arbitrary: c) (simp_all add: count_diff_def has_type_def)

lemma fold_count_diff_deleted:
  "deleted (fold count_diff ds c) = deleted c + length (filter (has_type ''deleted'') ds)"
  by (induction ds arbitrary: c) (simp_all add: count_diff_def has_type_def)

lemma fold_count_diff_modified:
  "modified (fold count_diff ds c) = modified c + length (filter (has_type ''modified'') ds)"
  by (induction ds arbitrary: c) (simp_all add: count_diff_def has_type_def)

lemma fold_count_diff_unchanged:
  "unchanged (fold count_diff ds c) = unchanged c + length (filter (has_type ''equal'') ds)"
  by (induction ds arbitrary: c) (simp_all add: count_diff_def has_type_def)

lemma fold_count_diff_added_content:
  "added_content (fold count_diff ds c) =
     added_content c @ map new_content (filter (has_type ''added'') ds)"
  by (induction ds arbitrary: c) (simp_all add: count_diff_def has_type_def)

lemma fold_count_diff_deleted_content:
  "deleted_content (fold count_diff ds c) =
     deleted_content c @ map old_content (filter (has_type ''deleted'') ds)"
  by (induction ds arbitrary: c) (simp_all add: count_diff_def has_type_def)

lemma fold_count_diff_modified_content:
  "modified_content (fold count_diff ds c) =
     modified_content c @ map (\<lambda>d. (old_content d, new_content d)) (filter (has_type ''modified'') ds)"
  by (induction ds arbitrary: c) (simp_all add: count_diff_def has_type_def)

lemma fold_count_diff_recognized:
  "fold count_diff (filter recognized ds) c = fold count_diff ds c"
  by (induction ds arbitrary: c) (simp_all add: count_diff_def recognized_def)

lemma count_recognized:
  "length (filter (has_type ''added'') ds) + length (filter (has_type ''deleted'') ds) +
   length (filter (has_type ''modified'') ds) + length (filter (has_type ''equal'') ds) =
   length (filter recognized ds)"
  by (induction ds) (auto simp: recognized_def has_type_def)

text \<open>The double \<^verbatim>\<open>d\<close> is finite and \<^verbatim>\<open>d <= c\<close>.\<close>

definition double_le_nat :: "double \<Rightarrow> nat \<Rightarrow> bool" where
  "double_le_nat d c =
     (case d of Finite m s \<Rightarrow> m * 2 ^ nat s \<le> c * 2 ^ nat (- s) | Infinity \<Rightarrow> False | NaN \<Rightarrow> False)"

lemma bit_length_mono: "m \<le> n \<Longrightarrow> bit_length m \<le> bit_length n"
proof (induction n arbitrary: m rule: bit_length.induct)
  case (1 n)
  show ?case
  proof (cases "m = 0")
    case True
    then show ?thesis by (simp add: bit_length.simps [of 0])
  next
    case False
    with "1.prems" have n: "n \<noteq> 0" by simp
    have "m div 2 \<le> n div 2" using "1.prems" by (rule div_le_mono)
    then have "bit_length (m div 2) \<le> bit_length (n div 2)" by (rule "1.IH" [OF n])
    then show ?thesis
      using False n by (simp add: bit_length.simps [of m] bit_length.simps [of n])
  qed
qed

lemma bit_length_shift: "0 < n \<Longrightarrow> bit_length (n * 2 ^ k) = bit_length n + k"
proof (induction k)
  case 0
  then show ?case by simp
next
  case (Suc k)
  have "bit_length (n * 2 ^ Suc k) = Suc (bit_length (n * 2 ^ k))"
    using Suc.prems by (subst bit_length.simps) simp
  with Suc show ?case by simp
qed

lemma floor_log2_le: "floor_log2 p q \<le> int (bit_length p) - int (bit_length q)"
  by (simp add: floor_log2_def Let_def)

lemma round_half_even_le:
  assumes "0 < d" "n \<le> d * c"
  shows "round_half_even n d \<le> c"
proof -
  have f: "n div d \<le> c"
    using assms by (metis div_le_mono nonzero_mult_div_cancel_left less_numeral_extra(3))
  show ?thesis
  proof (cases "n div d = c")
    case True
    have "d * (n div d) + n mod d = n" by simp
    with True assms(2) have "n mod d = 0" by (metis add_diff_cancel_left' diff_is_0_eq')
    with True assms(1) show ?thesis by (simp add: round_half_even_def Let_def)
  next
    case False
    with f have "n div d < c" by simp
    then show ?thesis by (simp add: round_half_even_def Let_def)
  qed
qed

lemma nearest_double_bound:
  assumes "0 < q" "p \<le> q * c" "c \<le> 2 ^ 52"
  shows "case nearest_double p q of (m, s) \<Rightarrow> s \<le> 0 \<and> m \<le> c * 2 ^ nat (- s)"
proof (cases "p = 0")
  case True
  then show ?thesis by (simp add: nearest_double_def)
next
  case False
  define s where "s = max (floor_log2 p q) (- 1022) - 52"
  have "p \<le> q * 2 ^ 52" using assms(2,3) by (meson le_trans mult_le_mono2)
  then have "bit_length p \<le> bit_length (q * 2 ^ 52)" by (rule bit_length_mono)
  then have "bit_length p \<le> bit_length q + 52" unfolding bit_length_shift [OF assms(1)] .
  then have "floor_log2 p q \<le> 52" using floor_log2_le [of p q] by linarith
  then have s0: "s \<le> 0" by (simp add: s_def)
  then have ns: "nat s = 0" by simp
  have "p * 2 ^ nat (- s) \<le> q * (c * 2 ^ nat (- s))"
    using assms(2) by (metis mult.assoc mult_le_mono1)
  then have "round_half_even (p * 2 ^ nat (- s)) q \<le> c * 2 ^ nat (- s)"
    by (rule round_half_even_le [OF assms(1)])
  moreover have "nearest_double p q = (round_half_even (p * 2 ^ nat (- s)) q, s)"
    using False ns by (simp add: nearest_double_def Let_def s_def [symmetric])
  ultimately show ?thesis using s0 by simp
qed

lemma bounded_is_finite:
  assumes "s \<le> 0" "m \<le> c * 2 ^ nat (- s)" "c \<le> 2 ^ 52"
  shows "is_finite (m, s)"
proof -
  have ns: "nat s = 0" using assms(1) by simp
  have "(2::nat) ^ 52 < 2 ^ 1024" by (rule power_strict_increasing) simp_all
  then have "(2::nat) ^ 52 * 2 ^ nat (- s) < 2 ^ 1024 * 2 ^ nat (- s)"
    by (rule mult_less_mono1) simp
  moreover have "c * 2 ^ nat (- s) \<le> 2 ^ 52 * 2 ^ nat (- s)"
    using assms(3) by (rule mult_le_mono1)
  ultimately have "m < 2 ^ 1024 * 2 ^ nat (- s)"
    using assms(2) by (meson le_less_trans le_trans)
  then show ?thesis
    unfolding is_finite_def prod.case ns power_0 mult_1_right .
qed

lemma truediv_le:
  assumes "0 < n" "cnt \<le> n"
  shows "\<exists>m s. truediv cnt n = Some (Finite m s) \<and> s \<le> 0 \<and> m \<le> 2 ^ nat (- s)"
proof -
  obtain m s where ms: "nearest_double cnt n = (m, s)" by (cases "nearest_double cnt n")
  have b: "s \<le> 0 \<and> m \<le> 1 * 2 ^ nat (- s)"
    using nearest_double_bound [of n cnt 1] assms ms by simp
  then have "is_finite (m, s)" using bounded_is_finite [of s m 1] by simp
  then have "truediv cnt n = Some (Finite m s)" using assms(1) ms by (simp add: truediv_def)
  with b show ?thesis by simp
qed

lemma float_mul_100:
  assumes "s \<le> 0" "m \<le> 2 ^ nat (- s)"
  shows "double_le_nat (float_mul (Finite m s) (Finite 100 0)) 100"
proof -
  obtain m' s' where ms: "nearest_double (m * 100) (2 ^ nat (- s)) = (m', s')"
    by (cases "nearest_double (m * 100) (2 ^ nat (- s))")
  have "m * 100 \<le> 2 ^ nat (- s) * 100" using assms(2) by simp
  then have b: "s' \<le> 0 \<and> m' \<le> 100 * 2 ^ nat (- s')"
    using nearest_double_bound [of "2 ^ nat (- s)" "m * 100" 100] ms by simp
  then have "is_finite (m', s')" using bounded_is_finite [of s' m' 100] by simp
  then have "float_mul (Finite m s) (Finite 100 0) = Finite m' s'"
    using assms(1) ms by simp
  with b show ?thesis by (simp add: double_le_nat_def)
qed

text \<open>
  \<^verbatim>\<open>v\<close> is the percentage of \<^verbatim>\<open>cnt\<close> in \<^verbatim>\<open>total_elems\<close>: the \<^verbatim>\<open>int\<close> 0 when the total is 0;
  otherwise the division raises nothing and \<^verbatim>\<open>v\<close> is the double product of the double
  quotient and 100.0, which is finite and at most 100.
\<close>

definition is_percentage :: "number \<Rightarrow> nat \<Rightarrow> nat \<Rightarrow> bool" where
  "is_percentage v cnt total_elems =
     (if total_elems = 0 then v = PyInt 0
      else \<exists>q. truediv cnt total_elems = Some q \<and> v = PyFloat (float_mul q (Finite 100 0)) \<and>
             double_le_nat (float_mul q (Finite 100 0)) 100)"

lemma percentage_total:
  assumes "cnt \<le> n"
  shows "\<exists>v. percentage cnt n = Some v \<and> is_percentage v cnt n"
proof (cases "n = 0")
  case True
  then show ?thesis by (simp add: percentage_def is_percentage_def)
next
  case False
  then have n: "0 < n" by simp
  from truediv_le [OF n assms] obtain m s where
    t: "truediv cnt n = Some (Finite m s)" and b: "s \<le> 0" "m \<le> 2 ^ nat (- s)" by blast
  show ?thesis
    using n t float_mul_100 [OF b] by (simp add: percentage_def is_percentage_def)
qed

lemma percentage_11_of_20:
  "percentage 11 20 = Some (PyFloat (Finite 7740561859543041 (- 47)))"
proof -
  have b1: "bit_length 11 = 4" "bit_length 20 = 5"
    by (simp_all add: bit_length.simps)
  have f1: "floor_log2 11 20 = - 1"
    by (simp add: floor_log2_def b1)
  have n1: "nearest_double 11 20 = (4953959590107546, - 53)"
    by (simp add: nearest_double_def f1 round_half_even_def Let_def)
  have t1: "truediv 11 20 = Some (Finite 4953959590107546 (- 53))"
    by (simp add: truediv_def n1 is_finite_def)
  have b2: "bit_length 495395959010754600 = 59" "bit_length 9007199254740992 = 54"
    by (simp_all add: bit_length.simps)
  have f2: "floor_log2 495395959010754600 9007199254740992 = 5"
    by (simp add: floor_log2_def b2)
  have n2: "nearest_double 495395959010754600 9007199254740992 = (7740561859543041, - 47)"
    by (simp add: nearest_double_def f2 round_half_even_def Let_def)
  have "float_mul (Finite 4953959590107546 (- 53)) (Finite 100 0) =
        Finite 7740561859543041 (- 47)"
    apply (simp only: float_mul.simps)
    apply (simp add: n2)
    apply (simp add: is_finite_def)
    done
  then show ?thesis by (simp add: percentage_def t1)
qed

lemma generate_summary_fields:
  "\<exists>s. generate_summary ds = Some s \<and>
     total_elements s =
       added (fold count_diff ds counters0) + deleted (fold count_diff ds counters0) +
       modified (fold count_diff ds counters0) + unchanged (fold count_diff ds counters0) \<and>
     additions_count s = added (fold count_diff ds counters0) \<and>
     deletions_count s = deleted (fold count_diff ds counters0) \<and>
     modifications_count s = modified (fold count_diff ds counters0) \<and>
     unchanged_count s = unchanged (fold count_diff ds counters0) \<and>
     additions_words s = count_words (added_content (fold count_diff ds counters0)) \<and>
     deletions_words s = count_words (deleted_content (fold count_diff ds counters0)) \<and>
     modifications_words_old s =
       count_words (map fst (modified_content (fold count_diff ds counters0))) \<and>
     modifications_words_new s =
       count_words (map snd (modified_content (fold count_diff ds counters0))) \<and>
     is_percentage (additions_percentage s) (additions_count s) (total_elements s) \<and>
     is_percentage (deletions_percentage s) (deletions_count s) (total_elements s) \<and>
     is_percentage (modifications_percentage s) (modifications_count s) (total_elements s) \<and>
     is_percentage (unchanged_percentage s) (unchanged_count s) (total_elements s)"
proof -
  define c where "c = fold count_diff ds counters0"
  define n where "n = added c + deleted c + modified c + unchanged c"
  obtain pa where pa: "percentage (added c) n = Some pa" "is_percentage pa (added c) n"
    using percentage_total [of "added c" n] by (auto simp: n_def)
  obtain pd where pd: "percentage (deleted c) n = Some pd" "is_percentage pd (deleted c) n"
    using percentage_total [of "deleted c" n] by (auto simp: n_def)
  obtain pm where pm: "percentage (modified c) n = Some pm" "is_percentage pm (modified c) n"
    using percentage_total [of "modified c" n] by (auto simp: n_def)
  obtain pu where pu: "percentage (unchanged c) n = Some pu" "is_percentage pu (unchanged c) n"
    using percentage_total [of "unchanged c" n] by (auto simp: n_def)
  have "generate_summary ds =
        Some \<lparr>total_elements = n,
          additions_count = added c, additions_percentage = pa,
          additions_words = count_words (added_content c),
          deletions_count = deleted c, deletions_percentage = pd,
          deletions_words = count_words (deleted_content c),
          modifications_count = modified c, modifications_percentage = pm,
          modifications_words_old = count_words (map fst (modified_content c)),
          modifications_words_new = count_words (map snd (modified_content c)),
          unchanged_count = unchanged c, unchanged_percentage = pu\<rparr>"
    unfolding generate_summary_def Let_def c_def [symmetric] n_def [symmetric]
    by (simp add: pa(1) pd(1) pm(1) pu(1))
  then show ?thesis
    unfolding c_def [symmetric] using pa(2) pd(2) pm(2) pu(2) by (simp add: n_def)
qed

text \<open>
  Claim C7. \<^verbatim>\<open>generate_summary([])\<close> returns \<^verbatim>\<open>total_elements = 0\<close> and the percentage 0 (the
  \<^verbatim>\<open>int\<close>) for all four kinds, and raises no ZeroDivisionError. For every list of
  differences the call returns a summary (it raises nothing), each count is the number of
  differences of its type, \<^verbatim>\<open>total_elements\<close> is the sum of the four counts, and each
  percentage is the value of \<^verbatim>\<open>count / total_elements * 100\<close> in floating-point arithmetic
  when \<^verbatim>\<open>total_elements > 0\<close> (the quotient rounded to a double, then its product with
  100.0 rounded to a double, which is finite and at most 100), and 0 when
  \<^verbatim>\<open>total_elements == 0\<close>. The two roundings show for 11 differences of 20: the percentage
  is the double \<^verbatim>\<open>7740561859543041 * 2 ** -47\<close>, printed \<^verbatim>\<open>55.00000000000001\<close>.
\<close>

theorem generate_summary_percentages:
  "generate_summary [] =
     Some \<lparr>total_elements = 0,
       additions_count = 0, additions_percentage = PyInt 0, additions_words = 0,
       deletions_count = 0, deletions_percentage = PyInt 0, deletions_words = 0,
       modifications_count = 0, modifications_percentage = PyInt 0,
       modifications_words_old = 0, modifications_words_new = 0,
       unchanged_count = 0, unchanged_percentage = PyInt 0\<rparr> \<and>
   (\<exists>s. generate_summary ds = Some s \<and>
      additions_count s = length (filter (has_type ''added'') ds) \<and>
      deletions_count s = length (filter (has_type ''deleted'') ds) \<and>
      modifications_count s = length (filter (has_type ''modified'') ds) \<and>
      unchanged_count s = length (filter (has_type ''equal'') ds) \<and>
      total_elements s =
        additions_count s + deletions_count s + modifications_count s + unchanged_count s \<and>
      is_percentage (additions_percentage s) (additions_count s) (total_elements s) \<and>
      is_percentage (deletions_percentage s) (deletions_count s) (total_elements s) \<and>
      is_percentage (modifications_percentage s) (modifications_count s) (total_elements s) \<and>
      is_percentage (unchanged_percentage s) (unchanged_count s) (total_elements s)) \<and>
   percentage 11 20 = Some (PyFloat (Finite 7740561859543041 (- 47)))"
proof (intro conjI)
  show "generate_summary [] =
     Some \<lparr>total_elements = 0,
       additions_count = 0, additions_percentage = PyInt 0, additions_words = 0,
       deletions_count = 0, deletions_percentage = PyInt 0, deletions_words = 0,
       modifications_count = 0, modifications_percentage = PyInt 0,
       modifications_words_old = 0, modifications_words_new = 0,
       unchanged_count = 0, unchanged_percentage = PyInt 0\<rparr>"
    by (simp add: generate_summary_def percentage_def counters0_def count_words_def)
  show "\<exists>s. generate_summary ds = Some s \<and>
      additions_count s = length (filter (has_type ''added'') ds) \<and>
      deletions_count s = length (filter (has_type ''deleted'') ds) \<and>
      modifications_count s = length (filter (has_type ''modified'') ds) \<and>
      unchanged_count s = length (filter (has_type ''equal'') ds) \<and>
      total_elements s =
        additions_count s + deletions_count s + modifications_count s + unchanged_count s \<and>
      is_percentage (additions_percentage s) (additions_count s) (total_elements s) \<and>
      is_percentage (deletions_percentage s) (deletions_count s) (total_elements s) \<and>
      is_percentage (modifications_percentage s) (modifications_count s) (total_elements s) \<and>
      is_percentage (unchanged_percentage s) (unchanged_count s) (total_elements s)"
    using generate_summary_fields [of ds]
    by (auto simp: fold_count_diff_added fold_count_diff_deleted fold_count_diff_modified
        fold_count_diff_unchanged counters0_def)
  show "percentage 11 20 = Some (PyFloat (Finite 7740561859543041 (- 47)))"
    by (rule percentage_11_of_20)
qed

text \<open>
  Claim C9. For the single \<^verbatim>\<open>added\<close> difference whose \<^verbatim>\<open>new_content\<close> is \<^verbatim>\<open>"a b c"\<close>,
  \<^verbatim>\<open>generate_summary\<close> returns \<^verbatim>\<open>additions.words == 3\<close>: the content is cut at whitespace
  into the three words a, b and c.
\<close>

theorem generate_summary_word_count:
  "map_option additions_words
     (generate_summary [\<lparr>dtype = ''added'', old_content = [], new_content = ''a b c''\<rparr>]) = Some 3 \<and>
   split_ws ''a b c'' = [''a'', ''b'', ''c'']"
proof
  obtain s where s: "generate_summary [\<lparr>dtype = ''added'', old_content = [], new_content = ''a b c''\<rparr>] = Some s"
    and w: "additions_words s = count_words (added_content
              (fold count_diff [\<lparr>dtype = ''added'', old_content = [], new_content = ''a b c''\<rparr>] counters0))"
    using generate_summary_fields [of "[\<lparr>dtype = ''added'', old_content = [], new_content = ''a b c''\<rparr>]"]
    by blast
  show "map_option additions_words
     (generate_summary [\<lparr>dtype = ''added'', old_content = [], new_content = ''a b c''\<rparr>]) = Some 3"
    unfolding s using w
    by (simp add: counters0_def count_diff_def count_words_def split_ws_def
        is_space_def whitespace_chars_def)
  show "split_ws ''a b c'' = [''a'', ''b'', ''c'']"
    by (simp add: split_ws_def is_space_def whitespace_chars_def)
qed

text \<open>
  Claim C10. \<^verbatim>\<open>generate_summary\<close> ignores every difference whose type is none of
  \<^verbatim>\<open>added\<close>, \<^verbatim>\<open>deleted\<close>, \<^verbatim>\<open>modified\<close>, \<^verbatim>\<open>equal\<close>: the summary is the summary of the
  recognized differences alone, \<^verbatim>\<open>total_elements\<close> is their number, which is at most the
  length of the input and is strictly less for the one-element list holding a difference
  of type \<^verbatim>\<open>moved\<close> (0 against 1).
\<close>

theorem generate_summary_ignores_unrecognized:
  "generate_summary ds = generate_summary (filter recognized ds) \<and>
   map_option total_elements (generate_summary ds) = Some (length (filter recognized ds)) \<and>
   length (filter recognized ds) \<le> length ds \<and>
   map_option total_elements
     (generate_summary [\<lparr>dtype = ''moved'', old_content = ''x'', new_content = ''y''\<rparr>]) = Some 0"
proof (intro conjI)
  show "generate_summary ds = generate_summary (filter recognized ds)"
    by (simp add: generate_summary_def fold_count_diff_recognized)
  show "map_option total_elements (generate_summary ds) = Some (length (filter recognized ds))"
    using generate_summary_fields [of ds] count_recognized [of ds]
    by (auto simp: fold_count_diff_added fold_count_diff_deleted fold_count_diff_modified
        fold_count_diff_unchanged counters0_def)
  show "length (filter recognized ds) \<le> length ds" by simp
  show "map_option total_elements
     (generate_summary [\<lparr>dtype = ''moved'', old_content = ''x'', new_content = ''y''\<rparr>]) = Some 0"
    using generate_summary_fields [of "[\<lparr>dtype = ''moved'', old_content = ''x'', new_content = ''y''\<rparr>]"]
    by (auto simp: counters0_def count_diff_def)
qed

section \<open>The scenario of two paragraphs\<close>

text \<open>
  Claim C1. For \<^verbatim>\<open>A = "The cat sat.\n\nDogs bark loudly."\<close> and
  \<^verbatim>\<open>B = "The cat sat.\n\nDogs howl loudly. New paragraph here."\<close>, \<^verbatim>\<open>compare_texts\<close>
  returns exactly two records, in order: an \<^verbatim>\<open>equal\<close> record for \<^verbatim>\<open>"The cat sat."\<close>, and
  one \<^verbatim>\<open>modified\<close> record whose old content is \<^verbatim>\<open>"Dogs bark loudly."\<close> and whose new
  content is \<^verbatim>\<open>"Dogs howl loudly. New paragraph here."\<close>. The second paragraphs are cut
  into one old sentence and two new sentences; no sentence is shared, so the sentence
  matcher returns the single opcode \<^verbatim>\<open>replace\<close> over all of them, and the two new
  sentences are joined with a space into the one record.
\<close>

theorem compare_texts_scenario:
  "compare_texts (''The cat sat.'' @ [NL, NL] @ ''Dogs bark loudly.'')
     (''The cat sat.'' @ [NL, NL] @ ''Dogs howl loudly. New paragraph here.'') =
   [mk_diff ''equal'' ''The cat sat.'' ''The cat sat.'',
    mk_diff ''modified'' ''Dogs bark loudly.'' ''Dogs howl loudly. New paragraph here.''] \<and>
   split_sentences ''Dogs howl loudly. New paragraph here.'' =
     [''Dogs howl loudly.'', ''New paragraph here.''] \<and>
   get_opcodes [''Dogs bark loudly.''] [''Dogs howl loudly.'', ''New paragraph here.''] =
     [(Replace, 0, 1, 0, 2)]"
  by code_simp

text \<open>
  The three records that the scenario is said to produce (\<^verbatim>\<open>equal\<close>, then \<^verbatim>\<open>modified\<close> from
  \<^verbatim>\<open>"Dogs bark loudly."\<close> to \<^verbatim>\<open>"Dogs howl loudly."\<close>, then \<^verbatim>\<open>added\<close>
  \<^verbatim>\<open>"New paragraph here."\<close>) are not what the code returns.
\<close>

theorem compare_texts_scenario_counterexample:
  "compare_texts (''The cat sat.'' @ [NL, NL] @ ''Dogs bark loudly.'')
     (''The cat sat.'' @ [NL, NL] @ ''Dogs howl loudly. New paragraph here.'') \<noteq>
   [mk_diff ''equal'' ''The cat sat.'' ''The cat sat.'',
    mk_diff ''modified'' ''Dogs bark loudly.'' ''Dogs howl loudly.'',
    mk_diff ''added'' [] ''New paragraph here.'']"
  by code_simp

section \<open>Properties of the sequence matcher\<close>

text \<open>The index \<^verbatim>\<open>b2j\<close> maps an element to the ascending list of all its positions in \<^verbatim>\<open>b\<close>.\<close>

definition indices_of :: "'a \<Rightarrow> 'a list \<Rightarrow> nat list" where
  "indices_of e b = filter (\<lambda>j. b ! j = e) [0..<length b]"

lemma indices_of_snoc:
  "indices_of e (xs @ [x]) = indices_of e xs @ (if x = e then [length xs] else [])"
proof -
  have "filter (\<lambda>j. (xs @ [x]) ! j = e) [0..<length xs] = filter (\<lambda>j. xs ! j = e) [0..<length xs]"
    by (rule filter_cong) (auto simp: nth_append)
  then show ?thesis by (simp add: indices_of_def)
qed

lemma indices_of_empty_iff: "indices_of e b = [] \<longleftrightarrow> e \<notin> set b"
  by (auto simp: indices_of_def filter_empty_conv in_set_conv_nth)

lemma indices_of_absent: "e \<notin> set b \<Longrightarrow> indices_of e b = []"
  by (simp add: indices_of_empty_iff)

lemma build_b2j:
  "fold setdefault_append (enumerate 0 b) Map.empty =
     (\<lambda>e. if e \<in> set b then Some (indices_of e b) else None)"
proof (induction b rule: rev_induct)
  case Nil
  then show ?case by simp
next
  case (snoc x xs)
  have e: "enumerate 0 (xs @ [x]) = enumerate 0 xs @ [(length xs, x)]"
    by (simp add: enumerate_append_eq)
  show ?case
    unfolding e fold_append comp_def snoc.IH
    by (rule ext) (auto simp: setdefault_append_def indices_of_snoc indices_of_absent)
qed

definition popular :: "'a list \<Rightarrow> 'a \<Rightarrow> bool" where
  "popular b e = (length b \<ge> 200 \<and> length (indices_of e b) > length b div 100 + 1)"

lemma chain_b_eq:
  "chain_b b = (\<lambda>e. if e \<in> set b \<and> \<not> popular b e then Some (indices_of e b) else None)"
  unfolding chain_b_def build_b2j Let_def by (rule ext) (simp add: popular_def)

lemma chain_b_Some: "chain_b b e = Some js \<Longrightarrow> js = indices_of e b"
  by (simp add: chain_b_eq split: if_splits)

lemma indices_of_nth: "j \<in> set (indices_of e b) \<Longrightarrow> j < length b \<and> b ! j = e"
  by (simp add: indices_of_def)

lemma chain_b_absent: "e \<notin> set b \<Longrightarrow> chain_b b e = None"
  by (simp add: chain_b_eq)

lemma scan_fold_no_index:
  "\<forall>i\<in>set xs. b2j (a ! i) = None \<Longrightarrow>
   fold (scan_step a b2j blo bhi) xs (Map.empty, best) = (Map.empty, best)"
  by (induction xs) (simp_all add: scan_step_def)

lemma extend_left_stop:
  "\<not> (besti > alo \<and> bestj > blo \<and> a ! (besti - 1) = b ! (bestj - 1)) \<Longrightarrow>
   extend_left a b alo blo (besti, bestj, bestsize) = (besti, bestj, bestsize)"
  by (subst extend_left.simps, erule if_not_P)

lemma extend_right_stop:
  "\<not> (besti + bestsize < ahi \<and> bestj + bestsize < bhi \<and>
      a ! (besti + bestsize) = b ! (bestj + bestsize)) \<Longrightarrow>
   extend_right a b ahi bhi (besti, bestj, bestsize) = (besti, bestj, bestsize)"
  by (subst extend_right.simps, erule if_not_P)

lemma find_longest_match_disjoint:
  assumes "set a \<inter> set b = {}" "ahi \<le> length a" "bhi \<le> length b"
  shows "find_longest_match a b (chain_b b) alo ahi blo bhi = (alo, blo, 0)"
proof -
  have "\<forall>i\<in>set [alo..<ahi]. chain_b b (a ! i) = None"
  proof
    fix i assume "i \<in> set [alo..<ahi]"
    then have "a ! i \<in> set a" using assms(2) by simp
    then have "a ! i \<notin> set b" using assms(1) by blast
    then show "chain_b b (a ! i) = None" by (rule chain_b_absent)
  qed
  then have l: "longest_junk_free a (chain_b b) alo ahi blo bhi = (alo, blo, 0)"
    by (simp add: longest_junk_free_def scan_fold_no_index)
  have "\<not> (alo + 0 < ahi \<and> blo + 0 < bhi \<and> a ! (alo + 0) = b ! (blo + 0))"
  proof
    assume h: "alo + 0 < ahi \<and> blo + 0 < bhi \<and> a ! (alo + 0) = b ! (blo + 0)"
    then have "alo < length a" "blo < length b" using assms(2,3) by auto
    then have "a ! alo \<in> set a" "b ! blo \<in> set b" by simp_all
    with h assms(1) show False by auto
  qed
  then have r: "extend_right a b ahi bhi (alo, blo, 0) = (alo, blo, 0)"
    by (rule extend_right_stop)
  show ?thesis
    unfolding find_longest_match_def l by (simp add: extend_left_stop r)
qed

lemma get_matching_blocks_disjoint:
  assumes "set a \<inter> set b = {}"
  shows "get_matching_blocks a b = [(length a, length b, 0)]"
proof -
  have "match_loop a b (chain_b b) [(0, length a, 0, length b)] [] = []"
    by (simp add: match_loop.simps find_longest_match_disjoint [OF assms])
  then show ?thesis by (simp add: get_matching_blocks_def)
qed

lemma get_opcodes_disjoint:
  assumes "set a \<inter> set b = {}" "a \<noteq> []" "b \<noteq> []"
  shows "get_opcodes a b = [(Replace, 0, length a, 0, length b)]"
  using assms(2,3)
  by (simp add: get_opcodes_def get_matching_blocks_disjoint [OF assms(1)] opcode_step_def)

lemma split_paragraphs_not_Nil: "split_paragraphs s \<noteq> []"
  by (induction s rule: split_paragraphs.induct) (auto elim: push_char.elims)

lemma split_sentences_not_Nil: "split_sentences s \<noteq> []"
  by (induction s rule: split_sentences.induct) (auto elim: push_char.elims)

lemma join_push_char: "ps \<noteq> [] \<Longrightarrow> join sep (push_char c ps) = c # join sep ps"
  by (induction sep ps rule: join.induct) simp_all

lemma join_Cons_not_Nil: "ps \<noteq> [] \<Longrightarrow> join sep (p # ps) = p @ sep @ join sep ps"
  by (cases ps) simp_all

lemma join_split_paragraphs: "join [NL, NL] (split_paragraphs s) = s"
  by (induction s rule: split_paragraphs.induct)
    (simp_all add: join_push_char join_Cons_not_Nil split_paragraphs_not_Nil)

lemma slice_all: "slice xs 0 (length xs) = xs"
  by (simp add: slice_def)

lemma compare_texts_no_shared_paragraph:
  assumes "set (split_paragraphs (sanitize_for_display text1)) \<inter>
           set (split_paragraphs (sanitize_for_display text2)) = {}"
  shows "compare_texts text1 text2 =
         concat (map (sentence_records (split_sentences (sanitize_for_display text1))
                        (split_sentences (sanitize_for_display text2)))
                   (get_opcodes (split_sentences (sanitize_for_display text1))
                      (split_sentences (sanitize_for_display text2))))"
  unfolding compare_texts_def Let_def
  by (simp add: get_opcodes_disjoint [OF assms split_paragraphs_not_Nil split_paragraphs_not_Nil]
      paragraph_records_def refine_replace_def slice_all join_split_paragraphs Let_def)

lemma compare_texts_nothing_shared:
  assumes "set (split_paragraphs (sanitize_for_display text1)) \<inter>
           set (split_paragraphs (sanitize_for_display text2)) = {}"
    and "set (split_sentences (sanitize_for_display text1)) \<inter>
         set (split_sentences (sanitize_for_display text2)) = {}"
  shows "compare_texts text1 text2 =
         [mk_diff ''modified'' (join '' '' (split_sentences (sanitize_for_display text1)))
            (join '' '' (split_sentences (sanitize_for_display text2)))]"
  unfolding compare_texts_no_shared_paragraph [OF assms(1)]
  by (simp add: get_opcodes_disjoint [OF assms(2) split_sentences_not_Nil split_sentences_not_Nil]
      sentence_records_def slice_all)

section \<open>Total replacement\<close>

text \<open>
  Claim C2. When the two texts share no paragraph, the paragraph matcher returns the single
  opcode \<^verbatim>\<open>replace\<close> over both texts, so every record comes from the sentence alignment
  of the whole texts: the result of \<^verbatim>\<open>compare_texts\<close> is the list of the records of the
  sentence opcodes, and no record is emitted at the paragraph level. When, in addition,
  the texts share no sentence, the sentence matcher returns the single opcode
  \<^verbatim>\<open>replace\<close> as well, and the result is exactly one \<^verbatim>\<open>modified\<close> record, whose contents
  are the sentences of each text joined with a space: there is no \<^verbatim>\<open>deleted\<close> and no
  \<^verbatim>\<open>added\<close> record.
\<close>

theorem compare_texts_total_replacement:
  assumes "set (split_paragraphs (sanitize_for_display text1)) \<inter>
           set (split_paragraphs (sanitize_for_display text2)) = {}"
  shows "compare_texts text1 text2 =
           concat (map (sentence_records (split_sentences (sanitize_for_display text1))
                          (split_sentences (sanitize_for_display text2)))
                     (get_opcodes (split_sentences (sanitize_for_display text1))
                        (split_sentences (sanitize_for_display text2)))) \<and>
         (set (split_sentences (sanitize_for_display text1)) \<inter>
          set (split_sentences (sanitize_for_display text2)) = {} \<longrightarrow>
          compare_texts text1 text2 =
            [mk_diff ''modified'' (join '' '' (split_sentences (sanitize_for_display text1)))
               (join '' '' (split_sentences (sanitize_for_display text2)))])"
  using compare_texts_no_shared_paragraph [OF assms] compare_texts_nothing_shared [OF assms]
  by blast

theorem compare_texts_total_replacement_witness:
  "set (split_paragraphs (sanitize_for_display ''One. Two.'')) \<inter>
   set (split_paragraphs (sanitize_for_display ''Three.'')) = {} \<and>
   set (split_sentences (sanitize_for_display ''One. Two.'')) \<inter>
   set (split_sentences (sanitize_for_display ''Three.'')) = {} \<and>
   compare_texts ''One. Two.'' ''Three.'' = [mk_diff ''modified'' ''One. Two.'' ''Three.'']"
proof -
  have p: "set (split_paragraphs (sanitize_for_display ''One. Two.'')) \<inter>
           set (split_paragraphs (sanitize_for_display ''Three.'')) = {}"
    by code_simp
  have s: "set (split_sentences (sanitize_for_display ''One. Two.'')) \<inter>
           set (split_sentences (sanitize_for_display ''Three.'')) = {}"
    by code_simp
  have j: "join '' '' (split_sentences (sanitize_for_display ''One. Two.'')) = ''One. Two.''"
    "join '' '' (split_sentences (sanitize_for_display ''Three.'')) = ''Three.''"
    by code_simp+
  from compare_texts_total_replacement [OF p] s
  have "compare_texts ''One. Two.'' ''Three.'' =
        [mk_diff ''modified'' (join '' '' (split_sentences (sanitize_for_display ''One. Two.'')))
           (join '' '' (split_sentences (sanitize_for_display ''Three.'')))]"
    by blast
  with p s show ?thesis by (simp only: j simp_thms)
qed

text \<open>
  Two single paragraphs of one sentence each, with nothing in common, give one
  \<^verbatim>\<open>modified\<close> record, not a \<^verbatim>\<open>deleted\<close> and an \<^verbatim>\<open>added\<close> one.
\<close>

theorem compare_texts_total_replacement_counterexample:
  "split_paragraphs (sanitize_for_display ''Dogs bark loudly.'') = [''Dogs bark loudly.''] \<and>
   split_paragraphs (sanitize_for_display ''Cats purr softly.'') = [''Cats purr softly.''] \<and>
   split_sentences ''Dogs bark loudly.'' = [''Dogs bark loudly.''] \<and>
   split_sentences ''Cats purr softly.'' = [''Cats purr softly.''] \<and>
   compare_texts ''Dogs bark loudly.'' ''Cats purr softly.'' =
     [mk_diff ''modified'' ''Dogs bark loudly.'' ''Cats purr softly.'']"
  by code_simp

section \<open>Matching blocks hold equal elements\<close>

definition block_ok :: "'a list \<Rightarrow> 'a list \<Rightarrow> nat \<times> nat \<times> nat \<Rightarrow> bool" where
  "block_ok a b m = (case m of (i, j, k) \<Rightarrow> \<forall>t<k. a ! (i + t) = b ! (j + t))"

definition row_ok :: "'a list \<Rightarrow> 'a list \<Rightarrow> nat \<Rightarrow> (nat \<rightharpoonup> nat) \<Rightarrow> bool" where
  "row_ok a b i j2len =
     (\<forall>j v. j2len j = Some v \<longrightarrow>
        (\<exists>i0 j0. i0 + v = i \<and> j0 + v = j + 1 \<and> block_ok a b (i0, j0, v)))"

lemma scan_row_match:
  assumes "\<forall>j\<in>set js. b ! j = a ! i" "row_ok a b i j2len"
    and "row_ok a b (i + 1) newj2len" "block_ok a b best"
  shows "row_ok a b (i + 1) (fst (scan_row i blo bhi j2len js (newj2len, best))) \<and>
         block_ok a b (snd (scan_row i blo bhi j2len js (newj2len, best)))"
  using assms(1,3,4)
proof (induction js arbitrary: newj2len best)
  case Nil
  then show ?case by simp
next
  case (Cons j js)
  obtain bi bj bs where best: "best = (bi, bj, bs)" by (cases best)
  define v where "v = (if j = 0 then 0 else case j2len (j - 1) of None \<Rightarrow> 0 | Some v \<Rightarrow> v)"
  define k where "k = v + 1"
  have js: "\<forall>j\<in>set js. b ! j = a ! i" and ji: "b ! j = a ! i" using Cons.prems(1) by simp_all
  show ?case
  proof (cases "blo \<le> j \<and> j < bhi")
    case False
    with Cons.prems Cons.IH [OF js] best show ?thesis by auto
  next
    case True
    have pv: "\<exists>i0 j0. i0 + v = i \<and> j0 + v = j \<and> block_ok a b (i0, j0, v)"
    proof (cases "j = 0 \<or> j2len (j - 1) = None")
      case True
      then have "v = 0" by (auto simp: v_def)
      then show ?thesis by (simp add: block_ok_def)
    next
      case False
      then obtain w where w: "j \<noteq> 0" "j2len (j - 1) = Some w" by auto
      then have "v = w" by (simp add: v_def)
      moreover from assms(2) w(2) obtain i0 j0 where
        "i0 + w = i \<and> j0 + w = j - 1 + 1 \<and> block_ok a b (i0, j0, w)"
        unfolding row_ok_def by blast
      ultimately show ?thesis using w(1) by auto
    qed
    then obtain i0 j0 where s: "i0 + v = i" "j0 + v = j" and bo: "block_ok a b (i0, j0, v)"
      by blast
    have run: "block_ok a b (i0, j0, k)"
      unfolding block_ok_def prod.case
    proof (intro allI impI)
      fix t assume "t < k"
      then consider "t < v" | "t = v" unfolding k_def by linarith
      then show "a ! (i0 + t) = b ! (j0 + t)"
      proof cases
        case 1
        then show ?thesis using bo by (simp add: block_ok_def)
      next
        case 2
        then show ?thesis using s ji by simp
      qed
    qed
    have ik: "i + 1 - k = i0" "j + 1 - k = j0" using s by (simp_all add: k_def)
    have rb: "row_ok a b (i + 1) (newj2len(j \<mapsto> k))"
      unfolding row_ok_def
    proof (intro allI impI)
      fix j' v' assume h: "(newj2len(j \<mapsto> k)) j' = Some v'"
      show "\<exists>i0 j0. i0 + v' = i + 1 \<and> j0 + v' = j' + 1 \<and> block_ok a b (i0, j0, v')"
      proof (cases "j' = j")
        case True
        with h have "v' = k" by simp
        with True run s show ?thesis by (auto simp: k_def)
      next
        case False
        with h have "newj2len j' = Some v'" by simp
        with Cons.prems(2) show ?thesis unfolding row_ok_def by blast
      qed
    qed
    have w: "block_ok a b (i + 1 - k, j + 1 - k, k)"
      using run unfolding ik .
    show ?thesis
    proof (cases "k > bs")
      case gt: True
      have "scan_row i blo bhi j2len (j # js) (newj2len, best) =
            scan_row i blo bhi j2len js (newj2len(j \<mapsto> k), (i + 1 - k, j + 1 - k, k))"
        using True gt best by (simp add: k_def v_def Let_def)
      then show ?thesis by (simp only: Cons.IH [OF js rb w])
    next
      case le: False
      have "scan_row i blo bhi j2len (j # js) (newj2len, best) =
            scan_row i blo bhi j2len js (newj2len(j \<mapsto> k), best)"
        using True le best by (simp add: k_def v_def Let_def)
      then show ?thesis by (simp only: Cons.IH [OF js rb Cons.prems(3)])
    qed
  qed
qed

definition b2j_sound :: "'a list \<Rightarrow> ('a \<rightharpoonup> nat list) \<Rightarrow> bool" where
  "b2j_sound b b2j = (\<forall>e js. b2j e = Some js \<longrightarrow> (\<forall>j\<in>set js. b ! j = e))"

lemma chain_b_sound: "b2j_sound b (chain_b b)"
  unfolding b2j_sound_def by (auto dest!: chain_b_Some dest: indices_of_nth)

lemma scan_fold_match:
  assumes "b2j_sound b b2j"
  shows "row_ok a b n (fst (fold (scan_step a b2j blo bhi) [alo..<n] (Map.empty, (alo, blo, 0)))) \<and>
         block_ok a b (snd (fold (scan_step a b2j blo bhi) [alo..<n] (Map.empty, (alo, blo, 0))))"
proof (induction n)
  case 0
  then show ?case by (simp add: row_ok_def block_ok_def)
next
  case (Suc n)
  show ?case
  proof (cases "alo \<le> n")
    case False
    then show ?thesis by (simp add: row_ok_def block_ok_def)
  next
    case True
    obtain m best where st: "fold (scan_step a b2j blo bhi) [alo..<n] (Map.empty, (alo, blo, 0)) = (m, best)"
      by (cases "fold (scan_step a b2j blo bhi) [alo..<n] (Map.empty, (alo, blo, 0))")
    from Suc.IH st have ih: "row_ok a b n m" "block_ok a b best" by simp_all
    have e: "row_ok a b (n + 1) Map.empty" by (simp add: row_ok_def)
    have js: "\<forall>j\<in>set (case b2j (a ! n) of None \<Rightarrow> [] | Some js \<Rightarrow> js). b ! j = a ! n"
    proof (cases "b2j (a ! n)")
      case None
      then show ?thesis by simp
    next
      case (Some js)
      then show ?thesis using assms unfolding b2j_sound_def by simp
    qed
    have "fold (scan_step a b2j blo bhi) [alo..<Suc n] (Map.empty, (alo, blo, 0)) =
          scan_row n blo bhi m (case b2j (a ! n) of None \<Rightarrow> [] | Some js \<Rightarrow> js) (Map.empty, best)"
      using True st by (simp add: scan_step_def)
    with scan_row_match [OF js ih(1) e ih(2)]
    show ?thesis by simp
  qed
qed

lemma extend_left_match:
  "block_ok a b m \<Longrightarrow> block_ok a b (extend_left a b alo blo m)"
proof (induction a b alo blo m rule: extend_left.induct)
  case (1 a b alo blo besti bestj bestsize)
  show ?case
  proof (cases "besti > alo \<and> bestj > blo \<and> a ! (besti - 1) = b ! (bestj - 1)")
    case True
    have w: "block_ok a b (besti - 1, bestj - 1, bestsize + 1)"
      unfolding block_ok_def prod.case
    proof (intro allI impI)
      fix t assume t: "t < bestsize + 1"
      show "a ! (besti - 1 + t) = b ! (bestj - 1 + t)"
      proof (cases t)
        case 0
        then show ?thesis using True by simp
      next
        case (Suc u)
        then have "u < bestsize" using t by simp
        then have "a ! (besti + u) = b ! (bestj + u)"
          using "1.prems" by (simp add: block_ok_def)
        then show ?thesis using True Suc by simp
      qed
    qed
    have "extend_left a b alo blo (besti, bestj, bestsize) =
          extend_left a b alo blo (besti - 1, bestj - 1, bestsize + 1)"
      by (subst extend_left.simps, subst if_P [OF True], rule refl)
    with "1.IH" [OF True w] show ?thesis by simp
  next
    case False
    have "extend_left a b alo blo (besti, bestj, bestsize) = (besti, bestj, bestsize)"
      by (subst extend_left.simps, subst if_not_P [OF False], rule refl)
    with "1.prems" show ?thesis by simp
  qed
qed

lemma extend_right_match:
  "block_ok a b m \<Longrightarrow> block_ok a b (extend_right a b ahi bhi m)"
proof (induction a b ahi bhi m rule: extend_right.induct)
  case (1 a b ahi bhi besti bestj bestsize)
  show ?case
  proof (cases "besti + bestsize < ahi \<and> bestj + bestsize < bhi \<and>
         a ! (besti + bestsize) = b ! (bestj + bestsize)")
    case True
    have w: "block_ok a b (besti, bestj, bestsize + 1)"
      using "1.prems" True unfolding block_ok_def by (auto simp: less_Suc_eq)
    have "extend_right a b ahi bhi (besti, bestj, bestsize) =
          extend_right a b ahi bhi (besti, bestj, bestsize + 1)"
      by (subst extend_right.simps, subst if_P [OF True], rule refl)
    with "1.IH" [OF True w] show ?thesis by simp
  next
    case False
    have "extend_right a b ahi bhi (besti, bestj, bestsize) = (besti, bestj, bestsize)"
      by (subst extend_right.simps, subst if_not_P [OF False], rule refl)
    with "1.prems" show ?thesis by simp
  qed
qed

lemma find_longest_match_match:
  assumes "b2j_sound b b2j"
  shows "block_ok a b (find_longest_match a b b2j alo ahi blo bhi)"
  unfolding find_longest_match_def longest_junk_free_def
  by (intro extend_right_match extend_left_match conjunct2 [OF scan_fold_match [OF assms]])

section \<open>Opcodes of at most one matching block\<close>

text \<open>The opcode that \<^verbatim>\<open>get_opcodes\<close> emits for the gap in front of a matching block.\<close>

definition gap_opcodes :: "nat \<Rightarrow> nat \<Rightarrow> nat \<Rightarrow> nat \<Rightarrow> opcode list" where
  "gap_opcodes i ai j bj =
     (if i < ai \<and> j < bj then [(Replace, i, ai, j, bj)]
      else if i < ai then [(Delete, i, ai, j, bj)]
      else if j < bj then [(Insert, i, ai, j, bj)]
      else [])"

lemma opcode_step_eq:
  "opcode_step (ai, bj, sz) (i, j, answer) =
     (ai + sz, bj + sz,
      answer @ gap_opcodes i ai j bj @ (if sz \<noteq> 0 then [(Equal, ai, ai + sz, bj, bj + sz)] else []))"
  by (simp add: opcode_step_def gap_opcodes_def)

lemma get_opcodes_no_block:
  assumes "match_loop a b (chain_b b) [(0, length a, 0, length b)] [] = []"
  shows "get_opcodes a b = gap_opcodes 0 (length a) 0 (length b)"
  by (simp add: get_opcodes_def get_matching_blocks_def assms opcode_step_eq)

lemma get_opcodes_one_block:
  assumes "match_loop a b (chain_b b) [(0, length a, 0, length b)] [] = [(i, j, k)]" "k \<noteq> 0"
  shows "get_opcodes a b =
         gap_opcodes 0 i 0 j @ [(Equal, i, i + k, j, j + k)] @
         gap_opcodes (i + k) (length a) (j + k) (length b)"
proof -
  have "get_matching_blocks a b = [(i, j, k), (length a, length b, 0)]"
    using assms(2) by (auto simp: get_matching_blocks_def assms(1) collapse_step_def)
  then show ?thesis
    using assms(2) by (simp add: get_opcodes_def opcode_step_eq)
qed

lemma match_loop_single_window:
  "match_loop a b b2j [(alo, ahi, blo, bhi)] [] =
     (case find_longest_match a b b2j alo ahi blo bhi of (i, j, k) \<Rightarrow>
        if k \<noteq> 0
        then match_loop a b b2j
               ((if i + k < ahi \<and> j + k < bhi then [(i + k, ahi, j + k, bhi)] else []) @
                (if alo < i \<and> blo < j then [(alo, i, blo, j)] else []))
               [(i, j, k)]
        else [])"
  by (simp add: match_loop.simps split: prod.splits)

lemma get_opcodes_singleton_left:
  assumes "b \<noteq> []"
  shows "get_opcodes [x] b = [(Replace, 0, 1, 0, length b)] \<or>
         (\<exists>j<length b. b ! j = x \<and>
            get_opcodes [x] b =
              gap_opcodes 0 0 0 j @ [(Equal, 0, 1, j, j + 1)] @ gap_opcodes 1 1 (j + 1) (length b))"
proof -
  obtain i j k where f: "find_longest_match [x] b (chain_b b) 0 (Suc 0) 0 (length b) = (i, j, k)"
    by (cases "find_longest_match [x] b (chain_b b) 0 (Suc 0) 0 (length b)")
  show ?thesis
  proof (cases "k = 0")
    case True
    then have "match_loop [x] b (chain_b b) [(0, length [x], 0, length b)] [] = []"
      by (simp add: match_loop_single_window f)
    from get_opcodes_no_block [OF this] assms show ?thesis by (simp add: gap_opcodes_def)
  next
    case False
    from find_longest_match_inside [OF f False] False
    have ijk: "i = 0" "k = 1" "j < length b" by auto
    have "block_ok [x] b (i, j, k)"
      using find_longest_match_match [OF chain_b_sound, where a = "[x]" and b = b and alo = 0
          and ahi = "Suc 0" and blo = 0 and bhi = "length b"] f by simp
    then have e: "b ! j = x" using ijk by (simp add: block_ok_def)
    have "match_loop [x] b (chain_b b) [(0, length [x], 0, length b)] [] = [(0, j, 1)]"
      using ijk by (simp add: match_loop_single_window f match_loop.simps)
    from get_opcodes_one_block [OF this] ijk(3) e show ?thesis by auto
  qed
qed

lemma get_opcodes_singleton_right:
  assumes "a \<noteq> []"
  shows "get_opcodes a [y] = [(Replace, 0, length a, 0, 1)] \<or>
         (\<exists>i<length a. a ! i = y \<and>
            get_opcodes a [y] =
              gap_opcodes 0 i 0 0 @ [(Equal, i, i + 1, 0, 1)] @ gap_opcodes (i + 1) (length a) 1 1)"
proof -
  obtain i j k where f: "find_longest_match a [y] (chain_b [y]) 0 (length a) 0 (Suc 0) = (i, j, k)"
    by (cases "find_longest_match a [y] (chain_b [y]) 0 (length a) 0 (Suc 0)")
  show ?thesis
  proof (cases "k = 0")
    case True
    then have "match_loop a [y] (chain_b [y]) [(0, length a, 0, length [y])] [] = []"
      by (simp add: match_loop_single_window f)
    from get_opcodes_no_block [OF this] assms show ?thesis by (simp add: gap_opcodes_def)
  next
    case False
    from find_longest_match_inside [OF f False] False
    have ijk: "j = 0" "k = 1" "i < length a" by auto
    have "block_ok a [y] (i, j, k)"
      using find_longest_match_match [OF chain_b_sound, where a = a and b = "[y]" and alo = 0
          and ahi = "length a" and blo = 0 and bhi = "Suc 0"] f by simp
    then have e: "a ! i = y" using ijk by (simp add: block_ok_def)
    have "match_loop a [y] (chain_b [y]) [(0, length a, 0, length [y])] [] = [(i, 0, 1)]"
      using ijk by (simp add: match_loop_single_window f match_loop.simps)
    from get_opcodes_one_block [OF this] ijk(3) e show ?thesis by auto
  qed
qed

section \<open>An empty text\<close>

lemma sanitize_for_display_Nil: "sanitize_for_display [] = []"
  by (simp add: sanitize_for_display_def str_replace_def)

lemma split_paragraphs_no_newline: "NL \<notin> set p \<Longrightarrow> split_paragraphs p = [p]"
  by (induction p rule: split_paragraphs.induct) auto

lemma split_paragraphs_first:
  "NL \<notin> set p \<Longrightarrow> split_paragraphs (p @ NL # NL # rest) = p # split_paragraphs rest"
proof (induction p)
  case Nil
  then show ?case by simp
next
  case (Cons c p)
  then have ih: "split_paragraphs (p @ NL # NL # rest) = p # split_paragraphs rest" by simp
  obtain d cs where dc: "p @ NL # NL # rest = d # cs" by (cases "p @ NL # NL # rest") auto
  have "c \<noteq> NL" using Cons.prems by auto
  then have "split_paragraphs (c # d # cs) = push_char c (split_paragraphs (d # cs))"
    by simp
  then show ?case using ih dc by simp
qed

lemma split_paragraphs_join:
  "ps \<noteq> [] \<Longrightarrow> \<forall>p\<in>set ps. NL \<notin> set p \<Longrightarrow> split_paragraphs (join [NL, NL] ps) = ps"
proof (induction "[NL, NL]" ps rule: join.induct)
  case 1
  then show ?case by simp
next
  case (2 x)
  then show ?case by (simp add: split_paragraphs_no_newline)
next
  case (3 x y ys)
  then show ?case by (simp add: split_paragraphs_first)
qed

text \<open>An \<^verbatim>\<open>added\<close> record with no old content, a \<^verbatim>\<open>deleted\<close> record with no new content.\<close>

definition is_added :: "diff \<Rightarrow> bool" where
  "is_added d = (dtype d = ''added'' \<and> old_content d = [])"

definition is_deleted :: "diff \<Rightarrow> bool" where
  "is_deleted d = (dtype d = ''deleted'' \<and> new_content d = [])"

lemma gap_opcodes_insert:
  "gap_opcodes i i j bj = (if j < bj then [(Insert, i, i, j, bj)] else [])"
  by (simp add: gap_opcodes_def)

lemma gap_opcodes_delete:
  "gap_opcodes i ai j j = (if i < ai then [(Delete, i, ai, j, j)] else [])"
  by (simp add: gap_opcodes_def)

lemma sentence_records_insert_added:
  "list_all is_added (concat (map (sentence_records old new) (gap_opcodes i i j bj)))"
  by (simp add: gap_opcodes_insert sentence_records_def is_added_def mk_diff_def)

lemma sentence_records_delete_deleted:
  "list_all is_deleted (concat (map (sentence_records old new) (gap_opcodes i ai j j)))"
  by (simp add: gap_opcodes_delete sentence_records_def is_deleted_def mk_diff_def)

lemma paragraph_records_insert_added:
  "list_all is_added (concat (map (paragraph_records old new) (gap_opcodes i i j bj)))"
  by (simp add: gap_opcodes_insert paragraph_records_def is_added_def mk_diff_def list_all_iff)

lemma paragraph_records_delete_deleted:
  "list_all is_deleted (concat (map (paragraph_records old new) (gap_opcodes i ai j j)))"
  by (simp add: gap_opcodes_delete paragraph_records_def is_deleted_def mk_diff_def list_all_iff)

lemma sentences_singleton_left:
  assumes "ss \<noteq> []"
  shows "\<exists>as r bs. concat (map (sentence_records [x] ss) (get_opcodes [x] ss)) = as @ [r] @ bs \<and>
           list_all is_added as \<and> list_all is_added bs \<and>
           (r = mk_diff ''equal'' x x \<or> r = mk_diff ''modified'' x (join '' '' ss))"
  using get_opcodes_singleton_left [OF assms, of x]
proof
  assume "get_opcodes [x] ss = [(Replace, 0, 1, 0, length ss)]"
  then have "concat (map (sentence_records [x] ss) (get_opcodes [x] ss)) =
             [] @ [mk_diff ''modified'' x (join '' '' ss)] @ []"
    by (simp add: sentence_records_def slice_def)
  then show ?thesis
    by (intro exI [of _ "[]"] exI [of _ "mk_diff ''modified'' x (join '' '' ss)"]) simp
next
  assume "\<exists>j<length ss. ss ! j = x \<and>
            get_opcodes [x] ss =
              gap_opcodes 0 0 0 j @ [(Equal, 0, 1, j, j + 1)] @ gap_opcodes 1 1 (j + 1) (length ss)"
  then obtain j where "get_opcodes [x] ss =
      gap_opcodes 0 0 0 j @ [(Equal, 0, 1, j, j + 1)] @ gap_opcodes 1 1 (j + 1) (length ss)"
    by blast
  then have "concat (map (sentence_records [x] ss) (get_opcodes [x] ss)) =
             concat (map (sentence_records [x] ss) (gap_opcodes 0 0 0 j)) @
             [mk_diff ''equal'' x x] @
             concat (map (sentence_records [x] ss) (gap_opcodes 1 1 (j + 1) (length ss)))"
    by (simp add: sentence_records_def)
  then show ?thesis
    using sentence_records_insert_added [of "[x]" ss 0 0 j]
      sentence_records_insert_added [of "[x]" ss 1 "j + 1" "length ss"] by blast
qed

lemma sentences_singleton_right:
  assumes "ss \<noteq> []"
  shows "\<exists>as r bs. concat (map (sentence_records ss [y]) (get_opcodes ss [y])) = as @ [r] @ bs \<and>
           list_all is_deleted as \<and> list_all is_deleted bs \<and>
           (r = mk_diff ''equal'' y y \<or> r = mk_diff ''modified'' (join '' '' ss) y)"
  using get_opcodes_singleton_right [OF assms, of y]
proof
  assume "get_opcodes ss [y] = [(Replace, 0, length ss, 0, 1)]"
  then have "concat (map (sentence_records ss [y]) (get_opcodes ss [y])) =
             [] @ [mk_diff ''modified'' (join '' '' ss) y] @ []"
    by (simp add: sentence_records_def slice_def)
  then show ?thesis
    by (intro exI [of _ "[]"] exI [of _ "mk_diff ''modified'' (join '' '' ss) y"]) simp
next
  assume "\<exists>i<length ss. ss ! i = y \<and>
            get_opcodes ss [y] =
              gap_opcodes 0 i 0 0 @ [(Equal, i, i + 1, 0, 1)] @ gap_opcodes (i + 1) (length ss) 1 1"
  then obtain i where i: "ss ! i = y" "get_opcodes ss [y] =
      gap_opcodes 0 i 0 0 @ [(Equal, i, i + 1, 0, 1)] @ gap_opcodes (i + 1) (length ss) 1 1"
    by blast
  then have "concat (map (sentence_records ss [y]) (get_opcodes ss [y])) =
             concat (map (sentence_records ss [y]) (gap_opcodes 0 i 0 0)) @
             [mk_diff ''equal'' y y] @
             concat (map (sentence_records ss [y]) (gap_opcodes (i + 1) (length ss) 1 1))"
    by (simp add: sentence_records_def)
  then show ?thesis
    using sentence_records_delete_deleted [of ss "[y]" 0 i 0]
      sentence_records_delete_deleted [of ss "[y]" "i + 1" "length ss" 1] by blast
qed

lemma compare_texts_empty_left:
  "\<exists>as r bs. compare_texts [] t = as @ [r] @ bs \<and>
     list_all is_added as \<and> list_all is_added bs \<and>
     (r = mk_diff ''equal'' [] [] \<or>
      r = mk_diff ''modified'' [] (join '' '' (split_sentences (sanitize_for_display t))))"
proof -
  define ps where "ps = split_paragraphs (sanitize_for_display t)"
  have ps: "ps \<noteq> []" by (simp add: ps_def split_paragraphs_not_Nil)
  have c: "compare_texts [] t = concat (map (paragraph_records [[]] ps) (get_opcodes [[]] ps))"
    by (simp add: compare_texts_def sanitize_for_display_Nil ps_def Let_def)
  from get_opcodes_singleton_left [OF ps, of "[]"] show ?thesis
  proof
    assume "get_opcodes [[]] ps = [(Replace, 0, 1, 0, length ps)]"
    then have "compare_texts [] t =
        concat (map (sentence_records [[]] (split_sentences (sanitize_for_display t)))
                  (get_opcodes [[]] (split_sentences (sanitize_for_display t))))"
      unfolding c
      by (simp add: paragraph_records_def refine_replace_def slice_def ps_def
          join_split_paragraphs Let_def)
    then show ?thesis
      using sentences_singleton_left [OF split_sentences_not_Nil, of "[]" "sanitize_for_display t"]
      by simp
  next
    assume "\<exists>j<length ps. ps ! j = [] \<and>
            get_opcodes [[]] ps =
              gap_opcodes 0 0 0 j @ [(Equal, 0, 1, j, j + 1)] @ gap_opcodes 1 1 (j + 1) (length ps)"
    then obtain j where "get_opcodes [[]] ps =
        gap_opcodes 0 0 0 j @ [(Equal, 0, 1, j, j + 1)] @ gap_opcodes 1 1 (j + 1) (length ps)"
      by blast
    then have "compare_texts [] t =
               concat (map (paragraph_records [[]] ps) (gap_opcodes 0 0 0 j)) @
               [mk_diff ''equal'' [] []] @
               concat (map (paragraph_records [[]] ps) (gap_opcodes 1 1 (j + 1) (length ps)))"
      unfolding c by (simp add: paragraph_records_def)
    then show ?thesis
      using paragraph_records_insert_added [of "[[]]" ps 0 0 j]
        paragraph_records_insert_added [of "[[]]" ps 1 "j + 1" "length ps"] by blast
  qed
qed

lemma compare_texts_empty_right:
  "\<exists>as r bs. compare_texts t [] = as @ [r] @ bs \<and>
     list_all is_deleted as \<and> list_all is_deleted bs \<and>
     (r = mk_diff ''equal'' [] [] \<or>
      r = mk_diff ''modified'' (join '' '' (split_sentences (sanitize_for_display t))) [])"
proof -
  define ps where "ps = split_paragraphs (sanitize_for_display t)"
  have ps: "ps \<noteq> []" by (simp add: ps_def split_paragraphs_not_Nil)
  have c: "compare_texts t [] = concat (map (paragraph_records ps [[]]) (get_opcodes ps [[]]))"
    by (simp add: compare_texts_def sanitize_for_display_Nil ps_def Let_def)
  from get_opcodes_singleton_right [OF ps, of "[]"] show ?thesis
  proof
    assume "get_opcodes ps [[]] = [(Replace, 0, length ps, 0, 1)]"
    then have "compare_texts t [] =
        concat (map (sentence_records (split_sentences (sanitize_for_display t)) [[]])
                  (get_opcodes (split_sentences (sanitize_for_display t)) [[]]))"
      unfolding c
      by (simp add: paragraph_records_def refine_replace_def slice_def ps_def
          join_split_paragraphs Let_def)
    then show ?thesis
      using sentences_singleton_right [OF split_sentences_not_Nil, of "sanitize_for_display t" "[]"]
      by simp
  next
    assume "\<exists>i<length ps. ps ! i = [] \<and>
            get_opcodes ps [[]] =
              gap_opcodes 0 i 0 0 @ [(Equal, i, i + 1, 0, 1)] @ gap_opcodes (i + 1) (length ps) 1 1"
    then obtain i where i: "ps ! i = []" "get_opcodes ps [[]] =
        gap_opcodes 0 i 0 0 @ [(Equal, i, i + 1, 0, 1)] @ gap_opcodes (i + 1) (length ps) 1 1"
      by blast
    then have "compare_texts t [] =
               concat (map (paragraph_records ps [[]]) (gap_opcodes 0 i 0 0)) @
               [mk_diff ''equal'' [] []] @
               concat (map (paragraph_records ps [[]]) (gap_opcodes (i + 1) (length ps) 1 1))"
      unfolding c by (simp add: paragraph_records_def)
    then show ?thesis
      using paragraph_records_delete_deleted [of ps "[[]]" 0 i 0]
        paragraph_records_delete_deleted [of ps "[[]]" "i + 1" "length ps" 1] by blast
  qed
qed

text \<open>
  Claim C4. The paragraph splitting of \<^verbatim>\<open>compare_texts\<close> drops nothing: it returns at least
  one paragraph, the paragraphs joined with the delimiter are the text again, and a list
  of paragraphs without line breaks, empty and whitespace-only ones included, is got back
  from its join unchanged; the empty text is the single empty paragraph. For every text
  \<^verbatim>\<open>t\<close>, the result of \<^verbatim>\<open>compare_texts\<close> on the empty text and \<^verbatim>\<open>t\<close> is never empty and never
  made of \<^verbatim>\<open>added\<close> records only: it is a sequence of \<^verbatim>\<open>added\<close> records, with empty old
  content, around exactly one other record, which stands for the empty paragraph of the
  empty text and is either an \<^verbatim>\<open>equal\<close> record with empty contents or a \<^verbatim>\<open>modified\<close> record
  with empty old content whose new content is the sentences of \<^verbatim>\<open>t\<close> joined with a space.
  The same holds of \<^verbatim>\<open>t\<close> and the empty text with \<^verbatim>\<open>deleted\<close> records and the sides
  exchanged. When \<^verbatim>\<open>t\<close> has no empty paragraph and no empty sentence, the result is the
  \<^verbatim>\<open>modified\<close> record alone.
\<close>

theorem compare_texts_empty_text:
  "split_paragraphs s \<noteq> [] \<and> join [NL, NL] (split_paragraphs s) = s \<and>
   split_paragraphs [] = [[]] \<and>
   (ps \<noteq> [] \<and> (\<forall>p\<in>set ps. NL \<notin> set p) \<longrightarrow> split_paragraphs (join [NL, NL] ps) = ps) \<and>
   (\<exists>as r bs. compare_texts [] t = as @ [r] @ bs \<and>
      list_all is_added as \<and> list_all is_added bs \<and>
      (r = mk_diff ''equal'' [] [] \<or>
       r = mk_diff ''modified'' [] (join '' '' (split_sentences (sanitize_for_display t))))) \<and>
   (\<exists>as r bs. compare_texts t [] = as @ [r] @ bs \<and>
      list_all is_deleted as \<and> list_all is_deleted bs \<and>
      (r = mk_diff ''equal'' [] [] \<or>
       r = mk_diff ''modified'' (join '' '' (split_sentences (sanitize_for_display t))) [])) \<and>
   ([] \<notin> set (split_paragraphs (sanitize_for_display t)) \<and>
    [] \<notin> set (split_sentences (sanitize_for_display t)) \<longrightarrow>
    compare_texts [] t =
      [mk_diff ''modified'' [] (join '' '' (split_sentences (sanitize_for_display t)))] \<and>
    compare_texts t [] =
      [mk_diff ''modified'' (join '' '' (split_sentences (sanitize_for_display t))) []])"
proof (intro conjI impI)
  show "split_paragraphs s \<noteq> []" by (rule split_paragraphs_not_Nil)
  show "join [NL, NL] (split_paragraphs s) = s" by (rule join_split_paragraphs)
  show "split_paragraphs [] = [[]]" by simp
  show "\<exists>as r bs. compare_texts [] t = as @ [r] @ bs \<and>
      list_all is_added as \<and> list_all is_added bs \<and>
      (r = mk_diff ''equal'' [] [] \<or>
       r = mk_diff ''modified'' [] (join '' '' (split_sentences (sanitize_for_display t))))"
    by (rule compare_texts_empty_left)
  show "\<exists>as r bs. compare_texts t [] = as @ [r] @ bs \<and>
      list_all is_deleted as \<and> list_all is_deleted bs \<and>
      (r = mk_diff ''equal'' [] [] \<or>
       r = mk_diff ''modified'' (join '' '' (split_sentences (sanitize_for_display t))) [])"
    by (rule compare_texts_empty_right)
next
  assume "ps \<noteq> [] \<and> (\<forall>p\<in>set ps. NL \<notin> set p)"
  then show "split_paragraphs (join [NL, NL] ps) = ps" by (simp add: split_paragraphs_join)
next
  assume h: "[] \<notin> set (split_paragraphs (sanitize_for_display t)) \<and>
             [] \<notin> set (split_sentences (sanitize_for_display t))"
  then show "compare_texts [] t =
      [mk_diff ''modified'' [] (join '' '' (split_sentences (sanitize_for_display t)))]"
    using compare_texts_nothing_shared [of "[]" t] by (simp add: sanitize_for_display_Nil)
  from h show "compare_texts t [] =
      [mk_diff ''modified'' (join '' '' (split_sentences (sanitize_for_display t))) []]"
    using compare_texts_nothing_shared [of t "[]"] by (simp add: sanitize_for_display_Nil)
qed

theorem compare_texts_empty_text_witness:
  "split_paragraphs (join [NL, NL] ['' '', [], ''x'']) = ['' '', [], ''x''] \<and>
   split_paragraphs (sanitize_for_display ''Hello there.'') = [''Hello there.''] \<and>
   split_sentences (sanitize_for_display ''Hello there.'') = [''Hello there.''] \<and>
   compare_texts [] ''Hello there.'' = [mk_diff ''modified'' [] ''Hello there.''] \<and>
   compare_texts ''Hello there.'' [] = [mk_diff ''modified'' ''Hello there.'' []]"
proof -
  have n: "['' '', [], ''x''] \<noteq> [] \<and> (\<forall>p\<in>set ['' '', [], ''x'']. NL \<notin> set p)"
    by (simp add: NL_def)
  have p: "split_paragraphs (sanitize_for_display ''Hello there.'') = [''Hello there.'']"
    by code_simp
  have s: "split_sentences (sanitize_for_display ''Hello there.'') = [''Hello there.'']"
    by code_simp
  show ?thesis
    using compare_texts_empty_text [of "[]" "['' '', [], ''x'']" "''Hello there.''"] n
    unfolding p s by simp
qed

text \<open>
  The empty text against the one-letter text \<^verbatim>\<open>x\<close> gives a \<^verbatim>\<open>modified\<close> record; against a
  text that starts with a blank line it gives an \<^verbatim>\<open>equal\<close> record for the empty
  paragraph; and a whitespace-only and an empty paragraph are kept by the splitting.
\<close>

theorem compare_texts_empty_text_counterexample:
  "compare_texts [] ''x'' = [mk_diff ''modified'' [] ''x''] \<and>
   compare_texts [] ([NL, NL] @ ''x'') = [mk_diff ''equal'' [] [], mk_diff ''added'' [] ''x''] \<and>
   split_paragraphs ('' '' @ [NL, NL, NL, NL] @ ''x'') = ['' '', [], ''x'']"
  by code_simp

end
